theory Spec2Isabelle
  imports Complex_Main "HOL-Library.Multiset"
begin

section \<open>Data model (types/medication.ts)\<close>

text \<open>
  A JavaScript \<open>number\<close> that holds a price is modelled by an exact rational; counts,
  lengths and page indices are integers or naturals. Strings are lists of 8-bit
  characters (the ASCII reading of a JavaScript string). A field of type
  \<open>T | null\<close> is a \<open>T option\<close>.
\<close>

type_synonym number = rat

record Exemplar =
  ndc11 :: string
  ndc_description :: string
  unit_price :: number
  pricing_unit :: string
  reason_selected :: string
  nadac_per_unit :: number
  package_size :: "number option"
  package_description :: "string option"

record PricingStats =
  min_unit_price :: number
  median_unit_price :: number
  max_unit_price :: number
  pricing_unit :: string
  price_per_ml :: "number option"
  price_per_mg :: "number option"
  ndc_count :: number

record ConversionValues =
  is_liquid :: bool
  package_size :: "number option"
  package_unit :: "string option"
  strength_val :: "number option"
  strength_unit :: "string option"
  scdc_rxcui :: "string option"
  data_source :: string

record NdcLinks =
  ndc11_all :: "string list"
  ndc11_preferred :: "string list"

record Classification =
  ingredient_name :: "string option"
  ingredient_rxcui :: "string option"
  atc_codes :: "string list"

record DatasetVersions =
  nadac_week :: "string option"
  rxnorm_version :: "string option"
  fda_date :: "string option"

record MedicationDocument =
  rxcui :: string
  name :: string
  tty :: string
  pricing_stats :: PricingStats
  conversion_values :: ConversionValues
  ndc_links :: NdcLinks
  exemplars :: "Exemplar list"
  classification :: Classification
  dataset_versions :: DatasetVersions
  created_at :: "string option"
  updated_at :: "string option"

datatype SortField = Name | Rxcui | Median_price | Ndc_count

datatype SortDirection = Asc | Desc

datatype ViewMode = Cards | Table

datatype Tab = Database | Tests | Resolver

text \<open>
  A Firestore \<open>QueryDocumentSnapshot\<close>: the store's handle on one document. The
  controller keeps such handles as opaque cursors; the adapter reads the document
  out of it with \<open>data()\<close>.
\<close>

record QueryDocumentSnapshot =
  doc_id :: string
  data :: MedicationDocument

text \<open>What a rejected promise carries: an \<open>Error\<close> with its message, or any other value.\<close>

datatype thrown = Error string | NonError

record PaginatedResult =
  medications :: "MedicationDocument list"
  totalCount :: nat
  hasMore :: bool
  lastDoc :: "QueryDocumentSnapshot option"

record ViewerState =
  medications :: "MedicationDocument list"
  isLoading :: bool
  error :: "string option"
  totalCount :: nat
  isAuthenticated :: bool
  isLoadingAll :: bool
  loadingProgress :: nat
  allMedicationsLoaded :: bool
  currentPage :: int
  pageSize :: nat
  lastDocuments :: "int \<rightharpoonup> QueryDocumentSnapshot"
  hasMore :: bool
  searchQuery :: string
  matchedOnly :: bool
  unmatchedOnly :: bool
  liquidsOnly :: bool
  solidsOnly :: bool
  minNdcCount :: int
  sortField :: SortField
  sortDirection :: SortDirection
  viewMode :: ViewMode
  selectedMedication :: "MedicationDocument option"
  isDetailModalOpen :: bool
  activeTab :: Tab

definition PAGE_SIZE :: nat where
  "PAGE_SIZE = 100"

text \<open>The field initialisers of the class \<open>MedicationViewerStore\<close>.\<close>

definition initialState :: ViewerState where
  "initialState = \<lparr>
     medications = [], isLoading = False, error = None, totalCount = 0,
     isAuthenticated = False, isLoadingAll = False, loadingProgress = 0,
     allMedicationsLoaded = False, currentPage = 1, pageSize = PAGE_SIZE,
     lastDocuments = Map.empty, hasMore = True, searchQuery = [],
     matchedOnly = False, unmatchedOnly = False, liquidsOnly = False,
     solidsOnly = False, minNdcCount = 0, sortField = Name, sortDirection = Asc,
     viewMode = Cards, selectedMedication = None, isDetailModalOpen = False,
     activeTab = Database \<rparr>"

section \<open>String primitives\<close>

definition isDigit :: "char \<Rightarrow> bool" where
  "isDigit c = List.member ''0123456789'' c"

text \<open>The ASCII part of the class \<open>\s\<close>, which is also what \<open>trim\<close> removes.\<close>

definition isSpace :: "char \<Rightarrow> bool" where
  "isSpace c = List.member [CHR 0x09, CHR 0x0A, CHR 0x0B, CHR 0x0C, CHR 0x0D, CHR 0x20] c"

definition trim :: "string \<Rightarrow> string" where
  "trim s = rev (dropWhile isSpace (rev (dropWhile isSpace s)))"

definition lowerChar :: "char \<Rightarrow> char" where
  "lowerChar c =
     (case map_of (zip ''ABCDEFGHIJKLMNOPQRSTUVWXYZ'' ''abcdefghijklmnopqrstuvwxyz'') c of
        Some l \<Rightarrow> l
      | None \<Rightarrow> c)"

definition toLowerCase :: "string \<Rightarrow> string" where
  "toLowerCase s = map lowerChar s"

fun startsWith :: "string \<Rightarrow> string \<Rightarrow> bool" where
  "startsWith s [] = True"
| "startsWith [] (p # ps) = False"
| "startsWith (c # cs) (p # ps) = (c = p \<and> startsWith cs ps)"

fun includes_str :: "string \<Rightarrow> string \<Rightarrow> bool" where
  "includes_str [] q = (q = [])"
| "includes_str (c # cs) q = (startsWith (c # cs) q \<or> includes_str cs q)"

section \<open>Name cleaning (utils/formatters.ts)\<close>

text \<open>
  \<open>name.replace(/^\{\d+\s+/, '')\<close>: an opening brace, one or more digits, one or more
  white-space characters, all at the start of the string. Digits and white space are
  disjoint classes, so the greedy match is the longest run of each.
\<close>

definition stripLeadingTag :: "string \<Rightarrow> string" where
  "stripLeadingTag s =
     (case s of
        [] \<Rightarrow> s
      | c # rest \<Rightarrow>
          if c = CHR ''{'' then
            (let afterDigits = dropWhile isDigit rest;
                 afterSpaces = dropWhile isSpace afterDigits
             in if takeWhile isDigit rest \<noteq> [] \<and> takeWhile isSpace afterDigits \<noteq> []
                then afterSpaces else s)
          else s)"

text \<open>\<open>cleaned.replace(/\}$/, '')\<close>: one closing brace at the very end.\<close>

definition stripTrailingBrace :: "string \<Rightarrow> string" where
  "stripTrailingBrace s = (if s \<noteq> [] \<and> last s = CHR ''}'' then butlast s else s)"

definition cleanMedicationName :: "string \<Rightarrow> string" where
  "cleanMedicationName nm =
     (if nm = [] then []
      else
        let cleaned = stripLeadingTag nm;
            cleaned' = (if startsWith nm ''{'' \<and> cleaned \<noteq> nm
                        then stripTrailingBrace cleaned else cleaned)
        in trim cleaned')"

section \<open>Derived views of the controller (stores/MedicationViewerStore.ts)\<close>

definition isUnmatched :: "MedicationDocument \<Rightarrow> bool" where
  "isUnmatched m = startsWith (rxcui m) ''UNMATCHED_''"

definition ndcLinkCount :: "MedicationDocument \<Rightarrow> nat" where
  "ndcLinkCount m = length (ndc11_all (ndc_links m))"

definition medianPrice :: "MedicationDocument \<Rightarrow> number" where
  "medianPrice m = median_unit_price (pricing_stats m)"

text \<open>The arrow function of the search filter; \<open>q\<close> is the lower-cased query.\<close>

definition searchMatches :: "string \<Rightarrow> MedicationDocument \<Rightarrow> bool" where
  "searchMatches q m =
     (includes_str (toLowerCase (cleanMedicationName (name m))) q
      \<or> includes_str (toLowerCase (rxcui m)) q
      \<or> (case ingredient_name (classification m) of
            None \<Rightarrow> False
          | Some ing \<Rightarrow> includes_str (toLowerCase ing) q))"

definition filteredMedications :: "ViewerState \<Rightarrow> MedicationDocument list" where
  "filteredMedications s =
     (let result = ViewerState.medications s;
          result = (if trim (searchQuery s) \<noteq> []
                    then filter (searchMatches (toLowerCase (searchQuery s))) result
                    else result);
          result = (if matchedOnly s then filter (\<lambda>m. \<not> isUnmatched m) result else result);
          result = (if unmatchedOnly s then filter isUnmatched result else result);
          result = (if liquidsOnly s
                    then filter (\<lambda>m. is_liquid (conversion_values m)) result else result);
          result = (if solidsOnly s
                    then filter (\<lambda>m. \<not> is_liquid (conversion_values m)) result else result);
          result = (if minNdcCount s > 0
                    then filter (\<lambda>m. int (ndcLinkCount m) \<ge> minNdcCount s) result
                    else result)
      in result)"

subsection \<open>Filter actions\<close>

definition setSearchQuery :: "string \<Rightarrow> ViewerState \<Rightarrow> ViewerState" where
  "setSearchQuery q s = s\<lparr>searchQuery := q\<rparr>"

definition toggleMatchedOnly :: "ViewerState \<Rightarrow> ViewerState" where
  "toggleMatchedOnly s =
     (let s1 = s\<lparr>matchedOnly := \<not> matchedOnly s\<rparr>
      in if matchedOnly s1 then s1\<lparr>unmatchedOnly := False\<rparr> else s1)"

definition toggleUnmatchedOnly :: "ViewerState \<Rightarrow> ViewerState" where
  "toggleUnmatchedOnly s =
     (let s1 = s\<lparr>unmatchedOnly := \<not> unmatchedOnly s\<rparr>
      in if unmatchedOnly s1 then s1\<lparr>matchedOnly := False\<rparr> else s1)"

definition toggleLiquidsOnly :: "ViewerState \<Rightarrow> ViewerState" where
  "toggleLiquidsOnly s =
     (let s1 = s\<lparr>liquidsOnly := \<not> liquidsOnly s\<rparr>
      in if liquidsOnly s1 then s1\<lparr>solidsOnly := False\<rparr> else s1)"

definition toggleSolidsOnly :: "ViewerState \<Rightarrow> ViewerState" where
  "toggleSolidsOnly s =
     (let s1 = s\<lparr>solidsOnly := \<not> solidsOnly s\<rparr>
      in if solidsOnly s1 then s1\<lparr>liquidsOnly := False\<rparr> else s1)"

definition setMinNdcCount :: "int \<Rightarrow> ViewerState \<Rightarrow> ViewerState" where
  "setMinNdcCount c s = s\<lparr>minNdcCount := max 0 c\<rparr>"

definition resetFilters :: "ViewerState \<Rightarrow> ViewerState" where
  "resetFilters s =
     s\<lparr>searchQuery := [], matchedOnly := False, unmatchedOnly := False,
       liquidsOnly := False, solidsOnly := False, minNdcCount := 0\<rparr>"


subsection \<open>Sorting\<close>

text \<open>
  \<open>Array.prototype.sort\<close> with a comparator is a stable sort: an element moves in
  front of another only when the comparator says so, and elements that compare equal
  keep the order they had. It is modelled by a stable insertion sort.
  \<open>String.prototype.localeCompare\<close> depends on the host's locale and is a parameter.
\<close>

fun insert_cmp :: "('a \<Rightarrow> 'a \<Rightarrow> number) \<Rightarrow> 'a \<Rightarrow> 'a list \<Rightarrow> 'a list" where
  "insert_cmp cmp x [] = [x]"
| "insert_cmp cmp x (y # ys) = (if cmp x y \<le> 0 then x # y # ys else y # insert_cmp cmp x ys)"

definition array_sort :: "('a \<Rightarrow> 'a \<Rightarrow> number) \<Rightarrow> 'a list \<Rightarrow> 'a list" where
  "array_sort cmp xs = foldr (insert_cmp cmp) xs []"

definition compareFn ::
  "(string \<Rightarrow> string \<Rightarrow> number) \<Rightarrow> SortField \<Rightarrow> number \<Rightarrow>
   MedicationDocument \<Rightarrow> MedicationDocument \<Rightarrow> number" where
  "compareFn localeCompare field dir a b =
     (case field of
        Name \<Rightarrow> localeCompare (cleanMedicationName (name a)) (cleanMedicationName (name b)) * dir
      | Rxcui \<Rightarrow> localeCompare (rxcui a) (rxcui b) * dir
      | Median_price \<Rightarrow> (medianPrice a - medianPrice b) * dir
      | Ndc_count \<Rightarrow> (of_nat (ndcLinkCount a) - of_nat (ndcLinkCount b)) * dir)"

definition sortDir :: "ViewerState \<Rightarrow> number" where
  "sortDir s = (if sortDirection s = Asc then 1 else - 1)"

definition sortedMedications ::
  "(string \<Rightarrow> string \<Rightarrow> number) \<Rightarrow> ViewerState \<Rightarrow> MedicationDocument list" where
  "sortedMedications localeCompare s =
     array_sort (compareFn localeCompare (sortField s) (sortDir s)) (filteredMedications s)"

definition setSortField :: "SortField \<Rightarrow> ViewerState \<Rightarrow> ViewerState" where
  "setSortField field s =
     (if sortField s = field
      then s\<lparr>sortDirection := (if sortDirection s = Asc then Desc else Asc)\<rparr>
      else s\<lparr>sortField := field, sortDirection := Asc\<rparr>)"

subsection \<open>Statistics\<close>



subsection \<open>Navigation predicates\<close>

text \<open>
  \<open>Math.ceil(totalCount / pageSize)\<close>. With a page size of zero the quotient is
  \<open>Infinity\<close> for a positive count and \<open>NaN\<close> for a zero count; \<open>None\<close> stands for
  \<open>NaN\<close> and \<open>Some None\<close> for \<open>Infinity\<close>.
\<close>

definition totalPages :: "ViewerState \<Rightarrow> int option option" where
  "totalPages s =
     (if pageSize s = 0
      then (if ViewerState.totalCount s = 0 then None else Some None)
      else Some (Some (int ((ViewerState.totalCount s + pageSize s - 1) div pageSize s))))"

definition canGoPrev :: "ViewerState \<Rightarrow> bool" where
  "canGoPrev s = (currentPage s > 1)"

definition canGoNext :: "ViewerState \<Rightarrow> bool" where
  "canGoNext s =
     (ViewerState.hasMore s \<or>
      (case totalPages s of
         None \<Rightarrow> False
       | Some None \<Rightarrow> True
       | Some (Some n) \<Rightarrow> currentPage s < n))"

subsection \<open>View actions\<close>

definition setViewMode :: "ViewMode \<Rightarrow> ViewerState \<Rightarrow> ViewerState" where
  "setViewMode mode s = s\<lparr>viewMode := mode\<rparr>"

definition openDetailModal :: "MedicationDocument \<Rightarrow> ViewerState \<Rightarrow> ViewerState" where
  "openDetailModal medication s =
     s\<lparr>selectedMedication := Some medication, isDetailModalOpen := True\<rparr>"

definition closeDetailModal :: "ViewerState \<Rightarrow> ViewerState" where
  "closeDetailModal s = s\<lparr>isDetailModalOpen := False, selectedMedication := None\<rparr>"

definition clearError :: "ViewerState \<Rightarrow> ViewerState" where
  "clearError s = s\<lparr>error := None\<rparr>"

definition setActiveTab :: "Tab \<Rightarrow> ViewerState \<Rightarrow> ViewerState" where
  "setActiveTab tab s = s\<lparr>activeTab := tab\<rparr>"

section \<open>The document store and the paginated query adapter (data/firestoreApi.ts)\<close>

text \<open>
  The Firestore SDK is outside the repository. It is a parameter: a record of
  operations on a store state \<open>'w\<close>, each returning its answer (or what the rejected
  promise carries) and the next store state. Nothing is assumed about it. Every
  round-trip is appended to a log, so that a theorem can count them.
\<close>

record 'w firestore =
  getCountFromServer :: "'w \<Rightarrow> (thrown + nat) \<times> 'w"
  getDocs :: "nat \<Rightarrow> QueryDocumentSnapshot option \<Rightarrow> 'w
              \<Rightarrow> (thrown + QueryDocumentSnapshot list) \<times> 'w"
  signInAnonymously :: "'w \<Rightarrow> (thrown + unit) \<times> 'w"
  isFirebaseConfigured :: bool

datatype event =
    CountEv "thrown + nat"
  | DocsEv nat "QueryDocumentSnapshot option" "thrown + QueryDocumentSnapshot list"
  | AuthEv "thrown + unit"

type_synonym 'w env = "'w \<times> event list"

definition getMedicationCount :: "'w firestore \<Rightarrow> 'w env \<Rightarrow> (thrown + nat) \<times> 'w env" where
  "getMedicationCount fs env =
     (case env of (w, tr) \<Rightarrow>
        (case getCountFromServer fs w of (r, w') \<Rightarrow> (r, (w', tr @ [CountEv r]))))"

definition runQuery ::
  "'w firestore \<Rightarrow> nat \<Rightarrow> QueryDocumentSnapshot option \<Rightarrow> 'w env
   \<Rightarrow> (thrown + QueryDocumentSnapshot list) \<times> 'w env" where
  "runQuery fs n cursor env =
     (case env of (w, tr) \<Rightarrow>
        (case getDocs fs n cursor w of (r, w') \<Rightarrow> (r, (w', tr @ [DocsEv n cursor r]))))"

definition initAuth :: "'w firestore \<Rightarrow> 'w env \<Rightarrow> (thrown + unit) \<times> 'w env" where
  "initAuth fs env =
     (case env of (w, tr) \<Rightarrow>
        (case signInAnonymously fs w of (r, w') \<Rightarrow> (r, (w', tr @ [AuthEv r]))))"

definition fetchMedicationsPage ::
  "'w firestore \<Rightarrow> nat \<Rightarrow> QueryDocumentSnapshot option \<Rightarrow> 'w env
   \<Rightarrow> (thrown + PaginatedResult) \<times> 'w env" where
  "fetchMedicationsPage fs pageSize' lastDocument env =
     (case getMedicationCount fs env of (c, env1) \<Rightarrow>
        let totalCount' = (case c of Inr n \<Rightarrow> n | Inl _ \<Rightarrow> 0)
        in (case runQuery fs pageSize' lastDocument env1 of
              (Inl e, env2) \<Rightarrow> (Inl e, env2)
            | (Inr docs, env2) \<Rightarrow>
                (Inr \<lparr> PaginatedResult.medications = map data docs,
                       PaginatedResult.totalCount = totalCount',
                       PaginatedResult.hasMore = (length docs = pageSize'),
                       lastDoc = (if length docs > 0 then Some (last docs) else None) \<rparr>,
                 env2)))"

text \<open>
  The \<open>while (hasMore)\<close> loop of \<open>fetchAllMedications\<close>. Nothing bounds the number of
  full pages the store may return, so the loop is a partial function: \<open>None\<close> is a run
  that never returns. The callback mutates the caller's state \<open>'st\<close>.
\<close>

partial_function (option) fetchAll_loop ::
  "'w firestore \<Rightarrow> (nat \<Rightarrow> nat option \<Rightarrow> 'st \<Rightarrow> 'st) option \<Rightarrow> nat option \<Rightarrow>
   MedicationDocument list \<Rightarrow> QueryDocumentSnapshot option \<Rightarrow> 'st \<Rightarrow> 'w env
   \<Rightarrow> ((thrown + MedicationDocument list) \<times> 'st \<times> 'w env) option" where
  "fetchAll_loop fs onProgress totalCount' meds lastDoc' st env =
     (case fetchMedicationsPage fs 100 lastDoc' env of
        (Inl e, env') \<Rightarrow> Some (Inl e, st, env')
      | (Inr result, env') \<Rightarrow>
          (let meds' = meds @ PaginatedResult.medications result;
               st' = (case onProgress of
                        None \<Rightarrow> st
                      | Some cb \<Rightarrow> cb (length meds') totalCount' st)
           in if PaginatedResult.hasMore result
              then fetchAll_loop fs onProgress totalCount' meds' (lastDoc result) st' env'
              else Some (Inr meds', st', env')))"

definition fetchAllMedications ::
  "'w firestore \<Rightarrow> (nat \<Rightarrow> nat option \<Rightarrow> 'st \<Rightarrow> 'st) option \<Rightarrow> 'st \<Rightarrow> 'w env
   \<Rightarrow> ((thrown + MedicationDocument list) \<times> 'st \<times> 'w env) option" where
  "fetchAllMedications fs onProgress st env =
     (case getMedicationCount fs env of (c, env1) \<Rightarrow>
        let totalCount' = (case c of Inr n \<Rightarrow> Some n | Inl _ \<Rightarrow> None)
        in fetchAll_loop fs onProgress totalCount' [] None st env1)"


section \<open>Loading actions of the controller (stores/MedicationViewerStore.ts)\<close>

text \<open>
  Each action is modelled run to completion: the state it reads at a suspension point
  is the state it left at the previous one. The state between the synchronous prefix
  of an action and its continuation (the action is then in flight) is named, so that
  a guard can be examined in it.
\<close>

definition errMessage :: "thrown \<Rightarrow> string \<Rightarrow> string" where
  "errMessage err fallback = (case err of Error msg \<Rightarrow> msg | NonError \<Rightarrow> fallback)"

text \<open>
  The \<open>for (let i = 1; i < page; i++)\<close> loop of \<open>loadPage\<close>, which walks forward to
  the cursor of page \<open>page - 1\<close>. It mutates \<open>lastDocuments\<close> as it goes, also when a
  later fetch fails; the cache is therefore threaded through and returned.
\<close>

function walkCursors ::
  "'w firestore \<Rightarrow> nat \<Rightarrow> int \<Rightarrow> int \<Rightarrow> (int \<rightharpoonup> QueryDocumentSnapshot) \<Rightarrow>
   QueryDocumentSnapshot option \<Rightarrow> 'w env
   \<Rightarrow> (thrown + QueryDocumentSnapshot option) \<times> (int \<rightharpoonup> QueryDocumentSnapshot) \<times> 'w env" where
  "walkCursors fs ps page i cache currentDoc env =
     (if i < page then
        (case cache i of
           Some d \<Rightarrow> walkCursors fs ps page (i + 1) cache (Some d) env
         | None \<Rightarrow>
             (case fetchMedicationsPage fs ps currentDoc env of
                (Inl e, env') \<Rightarrow> (Inl e, cache, env')
              | (Inr result, env') \<Rightarrow>
                  (case lastDoc result of
                     Some d \<Rightarrow> walkCursors fs ps page (i + 1) (cache(i \<mapsto> d)) (Some d) env'
                   | None \<Rightarrow> walkCursors fs ps page (i + 1) cache currentDoc env')))
      else (Inr currentDoc, cache, env))"
  by pat_completeness auto
termination
  by (relation "measure (\<lambda>(fs, ps, page, i, cache, currentDoc, env). nat (page - i))") auto

declare walkCursors.simps [simp del]

text \<open>The body of the \<open>try\<close> block of \<open>loadPage\<close>, up to the commit.\<close>

definition loadPage_try ::
  "'w firestore \<Rightarrow> int \<Rightarrow> ViewerState \<Rightarrow> 'w env
   \<Rightarrow> (thrown + nat \<times> PaginatedResult) \<times> (int \<rightharpoonup> QueryDocumentSnapshot) \<times> 'w env" where
  "loadPage_try fs page s env =
     (case getMedicationCount fs env of
        (Inl e, env1) \<Rightarrow> (Inl e, lastDocuments s, env1)
      | (Inr cnt, env1) \<Rightarrow>
          (case (if page > 1 then
                   (case lastDocuments s (page - 1) of
                      Some d \<Rightarrow> (Inr (Some d), lastDocuments s, env1)
                    | None \<Rightarrow> walkCursors fs (pageSize s) page 1 (lastDocuments s) None env1)
                 else (Inr None, lastDocuments s, env1)) of
             (Inl e, cache, env2) \<Rightarrow> (Inl e, cache, env2)
           | (Inr lastDoc', cache, env2) \<Rightarrow>
               (case fetchMedicationsPage fs (pageSize s) lastDoc' env2 of
                  (Inl e, env3) \<Rightarrow> (Inl e, cache, env3)
                | (Inr result, env3) \<Rightarrow> (Inr (cnt, result), cache, env3))))"

text \<open>The first \<open>runInAction\<close> of \<open>loadPage\<close>: the state while the load is in flight.\<close>

definition loadPage_begin :: "ViewerState \<Rightarrow> ViewerState" where
  "loadPage_begin s = s\<lparr>isLoading := True, error := None\<rparr>"

text \<open>The \<open>runInAction\<close> that commits a fetched page, and the one of the \<open>catch\<close> block.\<close>

definition loadPage_commit :: "int \<Rightarrow> nat \<Rightarrow> PaginatedResult \<Rightarrow> ViewerState \<Rightarrow> ViewerState" where
  "loadPage_commit page cnt result s =
     s\<lparr>medications := PaginatedResult.medications result,
       totalCount := cnt,
       hasMore := PaginatedResult.hasMore result,
       currentPage := page,
       lastDocuments := (case lastDoc result of
                           Some d \<Rightarrow> (lastDocuments s)(page \<mapsto> d)
                         | None \<Rightarrow> lastDocuments s),
       isLoading := False\<rparr>"

definition loadPage_catch :: "thrown \<Rightarrow> ViewerState \<Rightarrow> ViewerState" where
  "loadPage_catch err s =
     s\<lparr>error := Some (errMessage err ''Failed to load medications''), isLoading := False\<rparr>"

definition loadPage :: "'w firestore \<Rightarrow> int \<Rightarrow> ViewerState \<Rightarrow> 'w env \<Rightarrow> ViewerState \<times> 'w env" where
  "loadPage fs page s env =
     (if isLoading s then (s, env)
      else if page < 1 then (s, env)
      else
        (case loadPage_try fs page (loadPage_begin s) env of
           (Inr (cnt, result), cache, env') \<Rightarrow>
             (loadPage_commit page cnt result ((loadPage_begin s)\<lparr>lastDocuments := cache\<rparr>), env')
         | (Inl err, cache, env') \<Rightarrow>
             (loadPage_catch err ((loadPage_begin s)\<lparr>lastDocuments := cache\<rparr>), env')))"

definition nextPage :: "'w firestore \<Rightarrow> ViewerState \<Rightarrow> 'w env \<Rightarrow> ViewerState \<times> 'w env" where
  "nextPage fs s env = (if canGoNext s then loadPage fs (currentPage s + 1) s env else (s, env))"

definition prevPage :: "'w firestore \<Rightarrow> ViewerState \<Rightarrow> 'w env \<Rightarrow> ViewerState \<times> 'w env" where
  "prevPage fs s env = (if canGoPrev s then loadPage fs (currentPage s - 1) s env else (s, env))"

definition firstPage :: "'w firestore \<Rightarrow> ViewerState \<Rightarrow> 'w env \<Rightarrow> ViewerState \<times> 'w env" where
  "firstPage fs s env = loadPage fs 1 s env"

definition refresh :: "'w firestore \<Rightarrow> ViewerState \<Rightarrow> 'w env \<Rightarrow> ViewerState \<times> 'w env" where
  "refresh fs s env =
     loadPage fs 1 (s\<lparr>lastDocuments := Map.empty, allMedicationsLoaded := False\<rparr>) env"

definition initialize :: "'w firestore \<Rightarrow> ViewerState \<Rightarrow> 'w env \<Rightarrow> ViewerState \<times> 'w env" where
  "initialize fs s env =
     (if \<not> isFirebaseConfigured fs
      then (s\<lparr>error := Some ''Firebase is not configured. Please check your .env file.''\<rparr>, env)
      else
        (case initAuth fs env of
           (Inr _, env1) \<Rightarrow> loadPage fs 1 (s\<lparr>isAuthenticated := True\<rparr>) env1
         | (Inl err, env1) \<Rightarrow>
             (s\<lparr>error := Some (errMessage err ''Failed to authenticate''),
                isAuthenticated := False\<rparr>, env1)))"

text \<open>The progress callback that \<open>loadAllMedications\<close> hands to the adapter.\<close>

definition onProgress_cb :: "nat \<Rightarrow> nat option \<Rightarrow> ViewerState \<Rightarrow> ViewerState" where
  "onProgress_cb loaded total' s =
     (let s1 = s\<lparr>loadingProgress := loaded\<rparr>
      in case total' of Some t \<Rightarrow> s1\<lparr>totalCount := t\<rparr> | None \<Rightarrow> s1)"

text \<open>The first \<open>runInAction\<close> of \<open>loadAllMedications\<close>: the bulk load is in flight.\<close>

definition loadAll_begin :: "ViewerState \<Rightarrow> ViewerState" where
  "loadAll_begin s = s\<lparr>isLoadingAll := True, loadingProgress := 0, error := None\<rparr>"

text \<open>The \<open>runInAction\<close> that commits the bulk load, and the one of its \<open>catch\<close> block.\<close>

definition loadAll_commit :: "MedicationDocument list \<Rightarrow> ViewerState \<Rightarrow> ViewerState" where
  "loadAll_commit allMeds s =
     s\<lparr>medications := allMeds,
       totalCount := length allMeds,
       allMedicationsLoaded := True,
       isLoadingAll := False,
       currentPage := 1,
       hasMore := False\<rparr>"

definition loadAll_catch :: "thrown \<Rightarrow> ViewerState \<Rightarrow> ViewerState" where
  "loadAll_catch err s =
     s\<lparr>error := Some (errMessage err ''Failed to load all medications''),
       isLoadingAll := False\<rparr>"

definition loadAllMedications ::
  "'w firestore \<Rightarrow> ViewerState \<Rightarrow> 'w env \<Rightarrow> (ViewerState \<times> 'w env) option" where
  "loadAllMedications fs s env =
     (if isLoadingAll s \<or> isLoading s then Some (s, env)
      else
        (case fetchAllMedications fs (Some onProgress_cb) (loadAll_begin s) env of
           None \<Rightarrow> None
         | Some (Inr allMeds, s2, env') \<Rightarrow> Some (loadAll_commit allMeds s2, env')
         | Some (Inl err, s2, env') \<Rightarrow> Some (loadAll_catch err s2, env')))"

subsection \<open>All operations of the controller\<close>

datatype action =
    Initialize
  | LoadPage int
  | NextPage
  | PrevPage
  | FirstPage
  | Refresh
  | LoadAllMedications
  | SetSearchQuery string
  | ToggleMatchedOnly
  | ToggleUnmatchedOnly
  | ToggleLiquidsOnly
  | ToggleSolidsOnly
  | SetMinNdcCount int
  | SetSortField SortField
  | SetViewMode ViewMode
  | OpenDetailModal MedicationDocument
  | CloseDetailModal
  | ResetFilters
  | ClearError
  | SetActiveTab Tab

fun perform ::
  "'w firestore \<Rightarrow> action \<Rightarrow> ViewerState \<Rightarrow> 'w env \<Rightarrow> (ViewerState \<times> 'w env) option" where
  "perform fs Initialize s env = Some (initialize fs s env)"
| "perform fs (LoadPage page) s env = Some (loadPage fs page s env)"
| "perform fs NextPage s env = Some (nextPage fs s env)"
| "perform fs PrevPage s env = Some (prevPage fs s env)"
| "perform fs FirstPage s env = Some (firstPage fs s env)"
| "perform fs Refresh s env = Some (refresh fs s env)"
| "perform fs LoadAllMedications s env = loadAllMedications fs s env"
| "perform fs (SetSearchQuery q) s env = Some (setSearchQuery q s, env)"
| "perform fs ToggleMatchedOnly s env = Some (toggleMatchedOnly s, env)"
| "perform fs ToggleUnmatchedOnly s env = Some (toggleUnmatchedOnly s, env)"
| "perform fs ToggleLiquidsOnly s env = Some (toggleLiquidsOnly s, env)"
| "perform fs ToggleSolidsOnly s env = Some (toggleSolidsOnly s, env)"
| "perform fs (SetMinNdcCount c) s env = Some (setMinNdcCount c s, env)"
| "perform fs (SetSortField f) s env = Some (setSortField f s, env)"
| "perform fs (SetViewMode m) s env = Some (setViewMode m s, env)"
| "perform fs (OpenDetailModal m) s env = Some (openDetailModal m s, env)"
| "perform fs CloseDetailModal s env = Some (closeDetailModal s, env)"
| "perform fs ResetFilters s env = Some (resetFilters s, env)"
| "perform fs ClearError s env = Some (clearError s, env)"
| "perform fs (SetActiveTab t) s env = Some (setActiveTab t s, env)"


section \<open>Sample data and sample stores\<close>

text \<open>Concrete records and stores on which the theorems below are instantiated.\<close>

definition sampleDoc ::
  "string \<Rightarrow> string \<Rightarrow> number \<Rightarrow> bool \<Rightarrow> string list \<Rightarrow> string option \<Rightarrow> MedicationDocument" where
  "sampleDoc ident nm price liquid ndcs ingredient = \<lparr>
     rxcui = ident, name = nm, tty = ''SCD'',
     pricing_stats = \<lparr> min_unit_price = price, median_unit_price = price,
       max_unit_price = price, pricing_unit = ''EA'', price_per_ml = None,
       price_per_mg = None, ndc_count = of_nat (length ndcs) \<rparr>,
     conversion_values = \<lparr> is_liquid = liquid, package_size = None, package_unit = None,
       strength_val = None, strength_unit = None, scdc_rxcui = None,
       data_source = ''UNKNOWN'' \<rparr>,
     ndc_links = \<lparr> ndc11_all = ndcs, ndc11_preferred = [] \<rparr>,
     exemplars = [],
     classification = \<lparr> ingredient_name = ingredient, ingredient_rxcui = None,
       atc_codes = [] \<rparr>,
     dataset_versions = \<lparr> nadac_week = None, rxnorm_version = None, fda_date = None \<rparr>,
     created_at = None, updated_at = None \<rparr>"

definition amoxicillin :: MedicationDocument where
  "amoxicillin = sampleDoc ''1000'' ''{1 amoxicillin 250 MG Oral Capsule}'' (4 / 5) False
     [''00093310701'', ''00093310705''] (Some ''Amoxicillin'')"

definition ibuprofen :: MedicationDocument where
  "ibuprofen = sampleDoc ''2000'' ''ibuprofen 100 MG/5 ML Oral Suspension'' 10 True
     [''00113068426''] (Some ''ibuprofen'')"

definition acetaminophen :: MedicationDocument where
  "acetaminophen = sampleDoc ''3000'' ''acetaminophen 325 MG Oral Tablet'' 10 False
     [''00113048478'', ''00904198260'', ''50580045111''] (Some ''acetaminophen'')"

definition mysterySyrup :: MedicationDocument where
  "mysterySyrup = sampleDoc ''UNMATCHED_ab12'' ''Mystery Syrup'' 0 True [] None"

definition snapshotOf :: "MedicationDocument \<Rightarrow> QueryDocumentSnapshot" where
  "snapshotOf m = \<lparr> doc_id = rxcui m, data = m \<rparr>"

text \<open>
  A store that holds a fixed list of documents in key order and never fails: a query
  returns up to \<open>n\<close> documents after the cursor.
\<close>

definition datasetStore :: "QueryDocumentSnapshot list \<Rightarrow> unit firestore" where
  "datasetStore docs = \<lparr>
     getCountFromServer = (\<lambda>w. (Inr (length docs), w)),
     getDocs = (\<lambda>n cursor w.
       (Inr (take n (case cursor of
                       None \<Rightarrow> docs
                     | Some c \<Rightarrow> drop 1 (dropWhile (\<lambda>d. doc_id d \<noteq> doc_id c) docs))), w)),
     signInAnonymously = (\<lambda>w. (Inr (), w)),
     isFirebaseConfigured = True \<rparr>"

text \<open>The same store with a count aggregate that is always rejected.\<close>

definition countFailStore :: "QueryDocumentSnapshot list \<Rightarrow> unit firestore" where
  "countFailStore docs =
     (datasetStore docs)\<lparr>getCountFromServer := (\<lambda>w. (Inl (Error ''permission-denied''), w))\<rparr>"

text \<open>The same store with queries that are always rejected.\<close>

definition queryFailStore :: "QueryDocumentSnapshot list \<Rightarrow> unit firestore" where
  "queryFailStore docs =
     (datasetStore docs)\<lparr>getDocs := (\<lambda>n cursor w. (Inl (Error ''unavailable''), w))\<rparr>"

definition sampleDocs :: "MedicationDocument list" where
  "sampleDocs = [amoxicillin, ibuprofen, acetaminophen, mysterySyrup]"

definition sampleSnapshots :: "QueryDocumentSnapshot list" where
  "sampleSnapshots = map snapshotOf sampleDocs"


text \<open>The controller with the four sample records loaded.\<close>

definition loadedState :: ViewerState where
  "loadedState = initialState\<lparr>medications := sampleDocs\<rparr>"

text \<open>The same with a search text and three filters switched on.\<close>

definition filteringState :: ViewerState where
  "filteringState =
     loadedState\<lparr>searchQuery := ''AMOX'', matchedOnly := True, solidsOnly := True,
       minNdcCount := 2\<rparr>"

text \<open>A store whose whole content is one page of size two.\<close>

definition twoDocStore :: "unit firestore" where
  "twoDocStore = datasetStore (map snapshotOf [amoxicillin, ibuprofen])"

section \<open>Reading the log of round-trips\<close>

fun isPageFetch :: "event \<Rightarrow> bool" where
  "isPageFetch (DocsEv n cursor r) = True"
| "isPageFetch (CountEv r) = False"
| "isPageFetch (AuthEv r) = False"

text \<open>The page queries of a log, in the order they were issued.\<close>

definition pageFetches :: "event list \<Rightarrow> event list" where
  "pageFetches tr = filter isPageFetch tr"

text \<open>The cursor a page of documents provides: its last document, if it has one.\<close>

definition cursorOf :: "QueryDocumentSnapshot list \<Rightarrow> QueryDocumentSnapshot option" where
  "cursorOf docs = (if docs = [] then None else Some (last docs))"

text \<open>The documents that the successful page queries of a log returned, concatenated.\<close>

fun drained :: "event list \<Rightarrow> MedicationDocument list" where
  "drained [] = []"
| "drained (DocsEv n cursor (Inr docs) # evs) = map data docs @ drained evs"
| "drained (ev # evs) = drained evs"

text \<open>A controller that asks for one document per page.\<close>

definition smallPageState :: ViewerState where
  "smallPageState = initialState\<lparr>pageSize := 1\<rparr>"

text \<open>A store that holds the four sample records.\<close>

definition fourDocStore :: "unit firestore" where
  "fourDocStore = datasetStore sampleSnapshots"

text \<open>A sequence of controller operations, each run to completion before the next.\<close>

fun performAll ::
  "'w firestore \<Rightarrow> action list \<Rightarrow> ViewerState \<Rightarrow> 'w env \<Rightarrow> (ViewerState \<times> 'w env) option" where
  "performAll fs [] s env = Some (s, env)"
| "performAll fs (a # as) s env =
     (case perform fs a s env of
        None \<Rightarrow> None
      | Some (s', env') \<Rightarrow> performAll fs as s' env')"

text \<open>
  A store that answers its queries from a script: the k-th query gets the k-th page of
  the script (nothing once the script is over), whatever the cursor; the count is a
  fixed number. The store state is the number of queries answered so far.
\<close>

definition scriptedStore :: "nat \<Rightarrow> QueryDocumentSnapshot list list \<Rightarrow> nat firestore" where
  "scriptedStore counted pages = \<lparr>
     getCountFromServer = (\<lambda>k. (Inr counted, k)),
     getDocs = (\<lambda>n cursor k. (Inr (if k < length pages then pages ! k else []), Suc k)),
     signInAnonymously = (\<lambda>k. (Inr (), k)),
     isFirebaseConfigured = True \<rparr>"

text \<open>A full page of a hundred documents followed by a page of one.\<close>

definition twoPageScript :: "QueryDocumentSnapshot list list" where
  "twoPageScript = [replicate 100 (snapshotOf amoxicillin), [snapshotOf ibuprofen]]"

text \<open>Loading the pages 1, 2, ..., K one after the other.\<close>

fun loadInOrder :: "'w firestore \<Rightarrow> nat \<Rightarrow> ViewerState \<Rightarrow> 'w env \<Rightarrow> ViewerState \<times> 'w env" where
  "loadInOrder fs 0 s env = (s, env)"
| "loadInOrder fs (Suc k) s env =
     (case loadInOrder fs k s env of (s', env') \<Rightarrow> loadPage fs (int (Suc k)) s' env')"

section \<open>Comparators\<close>

text \<open>
  A comparator orders a list strictly when the list has no repetition, any two different
  elements compare as smaller and greater one way round and as greater and smaller the
  other, never as equal, and "smaller" is transitive.
\<close>

definition strictlyOrders :: "('a \<Rightarrow> 'a \<Rightarrow> number) \<Rightarrow> 'a list \<Rightarrow> bool" where
  "strictlyOrders cmp xs \<longleftrightarrow>
     distinct xs
     \<and> (\<forall>a\<in>set xs. \<forall>b\<in>set xs. a \<noteq> b \<longrightarrow>
            (cmp a b < 0 \<and> 0 < cmp b a) \<or> (0 < cmp a b \<and> cmp b a < 0))
     \<and> (\<forall>a\<in>set xs. \<forall>b\<in>set xs. \<forall>c\<in>set xs.
            cmp a b < 0 \<and> cmp b c < 0 \<longrightarrow> cmp a c < 0)"

text \<open>
  A sample \<open>localeCompare\<close>: the comparison of two strings by character codes, with
  result -1, 0 or 1.
\<close>

fun codeCompare :: "string \<Rightarrow> string \<Rightarrow> number" where
  "codeCompare [] [] = 0"
| "codeCompare [] (y # ys) = - 1"
| "codeCompare (x # xs) [] = 1"
| "codeCompare (x # xs) (y # ys) =
     (if (of_char x :: nat) < of_char y then - 1
      else if (of_char y :: nat) < of_char x then 1
      else codeCompare xs ys)"

text \<open>The four sample records sorted by median price, and three of them with distinct prices.\<close>

definition priceSortState :: ViewerState where
  "priceSortState = loadedState\<lparr>sortField := Median_price\<rparr>"

definition distinctPriceState :: ViewerState where
  "distinctPriceState =
     priceSortState\<lparr>medications := [ibuprofen, amoxicillin, mysterySyrup]\<rparr>"


section \<open>Properties of the string primitives\<close>

lemma startsWith_iff: "startsWith s p \<longleftrightarrow> (\<exists>r. s = p @ r)"
  by (induction s p rule: startsWith.induct) auto

lemma includes_str_iff: "includes_str s q \<longleftrightarrow> (\<exists>pre post. s = pre @ q @ post)"
proof (induction s)
  case Nil
  then show ?case by auto
next
  case (Cons c cs)
  show ?case
  proof
    assume "includes_str (c # cs) q"
    then consider "startsWith (c # cs) q" | "includes_str cs q" by auto
    then show "\<exists>pre post. c # cs = pre @ q @ post"
    proof cases
      case 1
      then obtain r where "c # cs = q @ r" by (auto simp: startsWith_iff)
      then have "c # cs = [] @ q @ r" by simp
      then show ?thesis by blast
    next
      case 2
      then obtain pre post where "cs = pre @ q @ post" using Cons.IH by auto
      then have "c # cs = (c # pre) @ q @ post" by simp
      then show ?thesis by blast
    qed
  next
    assume "\<exists>pre post. c # cs = pre @ q @ post"
    then obtain pre post where e: "c # cs = pre @ q @ post" by auto
    show "includes_str (c # cs) q"
    proof (cases pre)
      case Nil
      then have "startsWith (c # cs) q" using e by (auto simp: startsWith_iff)
      then show ?thesis by simp
    next
      case (Cons a pre')
      then have "cs = pre' @ q @ post" using e by simp
      then have "includes_str cs q" using Cons.IH by blast
      then show ?thesis by simp
    qed
  qed
qed

text \<open>The name-cleaning scenario of the specification.\<close>

lemma cleanMedicationName_scenario:
  "cleanMedicationName ''{1 amoxicillin 250 MG Oral Capsule}'' = ''amoxicillin 250 MG Oral Capsule''"
  by (simp add: cleanMedicationName_def stripLeadingTag_def stripTrailingBrace_def trim_def
      isDigit_def isSpace_def)

section \<open>Filtering\<close>

text \<open>The chain of \<open>filter\<close> calls is one filter by the conjunction of the enabled tests.\<close>

lemma filteredMedications_eq:
  "filteredMedications s =
     filter (\<lambda>m. (trim (searchQuery s) \<noteq> [] \<longrightarrow> searchMatches (toLowerCase (searchQuery s)) m)
              \<and> (matchedOnly s \<longrightarrow> \<not> isUnmatched m)
              \<and> (unmatchedOnly s \<longrightarrow> isUnmatched m)
              \<and> (liquidsOnly s \<longrightarrow> is_liquid (conversion_values m))
              \<and> (solidsOnly s \<longrightarrow> \<not> is_liquid (conversion_values m))
              \<and> (minNdcCount s > 0 \<longrightarrow> int (ndcLinkCount m) \<ge> minNdcCount s))
       (ViewerState.medications s)"
  unfolding filteredMedications_def Let_def
  by (auto intro!: filter_cong)


lemmas sample_eval =
  loadedState_def filteringState_def initialState_def sampleDocs_def amoxicillin_def
  ibuprofen_def acetaminophen_def mysterySyrup_def sampleDoc_def



section \<open>The paginated query adapter\<close>

text \<open>
  Claim C3. A page fetch that returns reports \<open>hasMore\<close> exactly when the number of
  records it returns equals the page size asked for: fewer records give \<open>false\<close>, and
  a full page gives \<open>true\<close>, also when nothing follows it.
\<close>

theorem hasMore_boundary:
  "fetchMedicationsPage fs n cursor env = (Inr r, env') \<Longrightarrow>
     PaginatedResult.hasMore r = (length (PaginatedResult.medications r) = n)
     \<and> (length (PaginatedResult.medications r) < n \<longrightarrow> \<not> PaginatedResult.hasMore r)
     \<and> (length (PaginatedResult.medications r) = n \<longrightarrow> PaginatedResult.hasMore r)"
  by (auto simp: fetchMedicationsPage_def Let_def split: prod.splits sum.splits)

lemmas store_eval =
  fetchMedicationsPage_def getMedicationCount_def runQuery_def datasetStore_def
  twoDocStore_def snapshotOf_def

text \<open>
  On a store of exactly two documents, the page of size two reports \<open>hasMore\<close> although
  it is the last one; the page after it is empty and reports no more.
\<close>

theorem hasMore_boundary_witness:
  "\<exists>r env' r2 env2.
     fetchMedicationsPage twoDocStore 2 None ((), []) = (Inr r, env')
     \<and> PaginatedResult.hasMore r
     \<and> fetchMedicationsPage twoDocStore 2 (lastDoc r) env' = (Inr r2, env2)
     \<and> PaginatedResult.medications r2 = []
     \<and> \<not> PaginatedResult.hasMore r2"
proof -
  obtain r tr where run: "fetchMedicationsPage twoDocStore 2 None ((), []) = (Inr r, ((), tr))"
    and len: "length (PaginatedResult.medications r) = 2"
    and ld: "lastDoc r = Some (snapshotOf ibuprofen)"
    by (simp add: store_eval)
  obtain r2 env2 where
    run2: "fetchMedicationsPage twoDocStore 2 (lastDoc r) ((), tr) = (Inr r2, env2)"
    and empty: "PaginatedResult.medications r2 = []"
    by (simp add: ld store_eval sample_eval)
  from hasMore_boundary [OF run] len have "PaginatedResult.hasMore r" by simp
  moreover from hasMore_boundary [OF run2] empty have "\<not> PaginatedResult.hasMore r2" by simp
  ultimately show ?thesis using run run2 empty by blast
qed

section \<open>Statistics\<close>





section \<open>What the loading actions leave alone\<close>

lemma loadPage_minNdcCount:
  "loadPage fs p s env = (s', env') \<Longrightarrow> minNdcCount s' = minNdcCount s"
  by (auto simp: loadPage_def loadPage_begin_def loadPage_commit_def loadPage_catch_def
      split: prod.splits sum.splits if_splits)

lemma onProgress_cb_frame:
  "\<exists>lp tc. onProgress_cb l t s = s\<lparr>loadingProgress := lp, totalCount := tc\<rparr>"
proof (cases t)
  case None
  have "onProgress_cb l None s = s\<lparr>loadingProgress := l, totalCount := ViewerState.totalCount s\<rparr>"
    by (simp add: onProgress_cb_def)
  with None show ?thesis by blast
next
  case (Some n)
  have "onProgress_cb l (Some n) s = s\<lparr>loadingProgress := l, totalCount := n\<rparr>"
    by (simp add: onProgress_cb_def)
  with Some show ?thesis by blast
qed

text \<open>
  The drain loop changes the controller only through the progress callback, that is,
  in \<open>loadingProgress\<close> and \<open>totalCount\<close>.
\<close>

lemma fetchAll_loop_frame:
  assumes "fetchAll_loop fs cb tc meds ld st env = Some y"
    and "cb = Some onProgress_cb"
  shows "\<exists>lp n. fst (snd y) = st\<lparr>loadingProgress := lp, totalCount := n\<rparr>"
  using assms
proof (induction rule: fetchAll_loop.raw_induct[rotated 1, consumes 1, case_names step])
  case (step S fs cb tc meds ld st env y)
  obtain res env1 where f: "fetchMedicationsPage fs 100 ld env = (res, env1)"
    by (cases "fetchMedicationsPage fs 100 ld env")
  show ?case
  proof (cases res)
    case (Inl e)
    with step(2) f have "y = (Inl e, st, env1)" by simp
    moreover have "st = st\<lparr>loadingProgress := loadingProgress st,
        totalCount := ViewerState.totalCount st\<rparr>"
      by simp
    ultimately show ?thesis by (metis fst_conv snd_conv)
  next
    case (Inr result)
    define meds' where "meds' = meds @ PaginatedResult.medications result"
    define st1 where "st1 = onProgress_cb (length meds') tc st"
    obtain lp n where st1: "st1 = st\<lparr>loadingProgress := lp, totalCount := n\<rparr>"
      using onProgress_cb_frame[of "length meds'" tc st] unfolding st1_def by blast
    show ?thesis
    proof (cases "PaginatedResult.hasMore result")
      case True
      with step(2) f Inr step(3) have "S fs cb tc meds' (lastDoc result) st1 env1 = Some y"
        by (simp add: meds'_def st1_def Let_def)
      from step(1)[OF this step(3)] obtain lp' n' where
        "fst (snd y) = st1\<lparr>loadingProgress := lp', totalCount := n'\<rparr>" by blast
      then have "fst (snd y) = st\<lparr>loadingProgress := lp', totalCount := n'\<rparr>"
        by (simp add: st1)
      then show ?thesis by blast
    next
      case False
      with step(2) f Inr step(3) have "y = (Inr meds', st1, env1)"
        by (simp add: meds'_def st1_def Let_def)
      then show ?thesis using st1 by auto
    qed
  qed
qed

text \<open>How \<open>loadAllMedications\<close> ends once its guard has let it through.\<close>

lemma loadAllMedications_run:
  assumes "loadAllMedications fs s env = Some (s', env')"
    and "\<not> (isLoadingAll s \<or> isLoading s)"
  obtains c env1 r s2 where
    "getMedicationCount fs env = (c, env1)"
    "fetchAll_loop fs (Some onProgress_cb) (case c of Inr n \<Rightarrow> Some n | Inl _ \<Rightarrow> None)
       [] None (loadAll_begin s) env1 = Some (r, s2, env')"
    "s' = (case r of Inr allMeds \<Rightarrow> loadAll_commit allMeds s2 | Inl err \<Rightarrow> loadAll_catch err s2)"
proof -
  obtain c env1 where c: "getMedicationCount fs env = (c, env1)"
    by (cases "getMedicationCount fs env")
  define tc where "tc = (case c of Inr n \<Rightarrow> Some n | Inl _ \<Rightarrow> None)"
  have fa: "fetchAllMedications fs (Some onProgress_cb) (loadAll_begin s) env
      = fetchAll_loop fs (Some onProgress_cb) tc [] None (loadAll_begin s) env1"
    by (simp add: fetchAllMedications_def c tc_def)
  show thesis
  proof (cases "fetchAll_loop fs (Some onProgress_cb) tc [] None (loadAll_begin s) env1")
    case None
    with assms fa show ?thesis by (simp add: loadAllMedications_def)
  next
    case (Some y)
    obtain r s2 env2 where y: "y = (r, s2, env2)" by (cases y)
    from assms Some fa y have e: "env2 = env'"
      by (cases r) (simp_all add: loadAllMedications_def)
    from assms Some fa y have "s' = (case r of Inr allMeds \<Rightarrow> loadAll_commit allMeds s2 | Inl err \<Rightarrow> loadAll_catch err s2)"
      by (cases r) (auto simp: loadAllMedications_def)
    with Some y e c show ?thesis
      by (intro that[of c env1 r s2]) (simp_all add: tc_def)
  qed
qed

lemma loadAllMedications_minNdcCount:
  assumes "loadAllMedications fs s env = Some (s', env')"
  shows "minNdcCount s' = minNdcCount s"
proof (cases "isLoadingAll s \<or> isLoading s")
  case True
  with assms show ?thesis by (simp add: loadAllMedications_def)
next
  case False
  obtain c env1 r s2 where
    cnt: "getMedicationCount fs env = (c, env1)"
    and run: "fetchAll_loop fs (Some onProgress_cb) (case c of Inr n \<Rightarrow> Some n | Inl _ \<Rightarrow> None)
       [] None (loadAll_begin s) env1 = Some (r, s2, env')"
    and s': "s' = (case r of Inr allMeds \<Rightarrow> loadAll_commit allMeds s2 | Inl err \<Rightarrow> loadAll_catch err s2)"
    by (rule loadAllMedications_run[OF assms False])
  from fetchAll_loop_frame[OF run refl] obtain lp n where
    "s2 = (loadAll_begin s)\<lparr>loadingProgress := lp, totalCount := n\<rparr>" by auto
  then show ?thesis using s'
    by (cases r) (simp_all add: loadAll_begin_def loadAll_commit_def loadAll_catch_def)
qed

section \<open>The lower bound of the linked-code filter\<close>

text \<open>
  Claim C10. \<open>setMinNdcCount c\<close> stores \<open>max 0 c\<close>, so a negative argument is stored
  as 0. \<open>minNdcCount\<close> is 0 in the initial state, and no operation of the controller
  that returns makes it negative.
\<close>

theorem minNdcCount_nonnegative:
  "minNdcCount (setMinNdcCount c s) = max 0 c
   \<and> 0 \<le> minNdcCount initialState
   \<and> (\<forall>s' env'. perform fs a s env = Some (s', env') \<longrightarrow>
         0 \<le> minNdcCount s \<longrightarrow> 0 \<le> minNdcCount s')"
proof (intro conjI allI impI)
  show "minNdcCount (setMinNdcCount c s) = max 0 c" by (simp add: setMinNdcCount_def)
  show "0 \<le> minNdcCount initialState" by (simp add: initialState_def)
next
  fix s' env'
  assume p: "perform fs a s env = Some (s', env')" and inv: "0 \<le> minNdcCount s"
  note lp = loadPage_minNdcCount
  show "0 \<le> minNdcCount s'"
  proof (cases a)
    case LoadAllMedications
    with p inv show ?thesis using loadAllMedications_minNdcCount[of fs s env s' env'] by simp
  next
    case Initialize
    with p have "initialize fs s env = (s', env')" by simp
    then have "minNdcCount s' = minNdcCount s"
      by (auto simp: initialize_def split: prod.splits sum.splits if_splits dest: lp)
    with inv show ?thesis by simp
  qed (use p inv in \<open>auto dest: lp simp: nextPage_def prevPage_def firstPage_def refresh_def
        setSearchQuery_def toggleMatchedOnly_def toggleUnmatchedOnly_def toggleLiquidsOnly_def
        toggleSolidsOnly_def setMinNdcCount_def setSortField_def setViewMode_def
        openDetailModal_def closeDetailModal_def resetFilters_def clearError_def
        setActiveTab_def Let_def split: if_splits\<close>)
qed

theorem minNdcCount_nonnegative_witness:
  "minNdcCount (setMinNdcCount (- 5) initialState) = 0
   \<and> (\<exists>s' env'. perform twoDocStore (SetMinNdcCount (- 5)) initialState ((), []) = Some (s', env')
         \<and> 0 \<le> minNdcCount s')"
proof -
  have p: "perform twoDocStore (SetMinNdcCount (- 5)) initialState ((), [])
      = Some (setMinNdcCount (- 5) initialState, ((), []))"
    by simp
  have i: "0 \<le> minNdcCount initialState" by (simp add: initialState_def)
  from minNdcCount_nonnegative [of "- 5" initialState twoDocStore
      "SetMinNdcCount (- 5)" "((), [])"] p i
  have "minNdcCount (setMinNdcCount (- 5) initialState) = max 0 (- 5)"
    and "0 \<le> minNdcCount (setMinNdcCount (- 5) initialState)"
    by blast+
  with p show ?thesis by simp
qed

section \<open>Round-trips of a page load\<close>

lemma pageFetches_append [simp]: "pageFetches (xs @ ys) = pageFetches xs @ pageFetches ys"
  by (simp add: pageFetches_def)

lemma pageFetches_simps [simp]:
  "pageFetches [] = []"
  "pageFetches (CountEv c # evs) = pageFetches evs"
  "pageFetches (AuthEv a # evs) = pageFetches evs"
  "pageFetches (DocsEv n cur d # evs) = DocsEv n cur d # pageFetches evs"
  by (simp_all add: pageFetches_def)

lemma fetchMedicationsPage_unfold:
  assumes "getCountFromServer fs w = (c, w1)" and "getDocs fs n cur w1 = (d, w2)"
  shows "fetchMedicationsPage fs n cur (w, tr) =
     (case d of
        Inl e \<Rightarrow> Inl e
      | Inr docs \<Rightarrow> Inr \<lparr> PaginatedResult.medications = map data docs,
            PaginatedResult.totalCount = (case c of Inr k \<Rightarrow> k | Inl _ \<Rightarrow> 0),
            PaginatedResult.hasMore = (length docs = n),
            lastDoc = cursorOf docs \<rparr>,
      (w2, tr @ [CountEv c, DocsEv n cur d]))"
  using assms
  by (cases d) (simp_all add: fetchMedicationsPage_def getMedicationCount_def runQuery_def cursorOf_def)

text \<open>A page fetch is one count and one query; its result is read off the query's answer.\<close>

lemma fetchMedicationsPage_cases:
  obtains (fails) c w2 e where
      "fetchMedicationsPage fs n cur (w, tr) = (Inl e, (w2, tr @ [CountEv c, DocsEv n cur (Inl e)]))"
  | (returns) c w2 docs r where
      "fetchMedicationsPage fs n cur (w, tr) = (Inr r, (w2, tr @ [CountEv c, DocsEv n cur (Inr docs)]))"
      "PaginatedResult.medications r = map data docs"
      "lastDoc r = cursorOf docs"
      "PaginatedResult.hasMore r = (length docs = n)"
proof -
  obtain c w1 where c: "getCountFromServer fs w = (c, w1)" by (cases "getCountFromServer fs w")
  obtain d w2 where d: "getDocs fs n cur w1 = (d, w2)" by (cases "getDocs fs n cur w1")
  note u = fetchMedicationsPage_unfold[OF c d, of tr]
  show thesis
  proof (cases d)
    case (Inl e)
    with u have "fetchMedicationsPage fs n cur (w, tr)
        = (Inl e, (w2, tr @ [CountEv c, DocsEv n cur (Inl e)]))" by simp
    then show ?thesis by (rule fails)
  next
    case (Inr docs)
    define r where "r = \<lparr> PaginatedResult.medications = map data docs,
            PaginatedResult.totalCount = (case c of Inr k \<Rightarrow> k | Inl _ \<Rightarrow> 0),
            PaginatedResult.hasMore = (length docs = n),
            lastDoc = cursorOf docs \<rparr>"
    from u Inr have "fetchMedicationsPage fs n cur (w, tr)
        = (Inr r, (w2, tr @ [CountEv c, DocsEv n cur (Inr docs)]))" by (simp add: r_def)
    then show ?thesis by (rule returns) (simp_all add: r_def)
  qed
qed

lemma getMedicationCount_unfold:
  "getCountFromServer fs w = (c, w1) \<Longrightarrow>
   getMedicationCount fs (w, tr) = (c, (w1, tr @ [CountEv c]))"
  by (simp add: getMedicationCount_def)

lemma walkCursors_done:
  "page \<le> i \<Longrightarrow> walkCursors fs ps page i cache cur env = (Inr cur, cache, env)"
  by (subst walkCursors.simps) simp

lemma walkCursors_cached:
  assumes "\<forall>j. i \<le> j \<and> j < m \<longrightarrow> cache j \<noteq> None" and "i \<le> m" and "m \<le> page"
  shows "walkCursors fs ps page i cache cur env
       = walkCursors fs ps page m cache (if i < m then cache (m - 1) else cur) env"
  using assms
proof (induction "nat (m - i)" arbitrary: i cur)
  case 0
  have "i = m" using "0.hyps" "0.prems"(2) by arith
  then show ?case by simp
next
  case (Suc k)
  have lt: "i < m" using Suc.hyps(2) by arith
  have ip: "i < page" using lt Suc.prems(3) by arith
  from Suc.prems lt obtain d where d: "cache i = Some d" by auto
  have step: "walkCursors fs ps page i cache cur env
      = walkCursors fs ps page (i + 1) cache (Some d) env"
    using ip d by (subst walkCursors.simps) simp
  have k: "k = nat (m - (i + 1))" using Suc.hyps(2) by simp
  have ih: "walkCursors fs ps page (i + 1) cache (Some d) env
      = walkCursors fs ps page m cache (if i + 1 < m then cache (m - 1) else Some d) env"
    using Suc.prems lt by (intro Suc.hyps(1)[OF k]) auto
  show ?case
  proof (cases "i + 1 < m")
    case True
    with step ih lt show ?thesis by simp
  next
    case False
    with lt have "m - 1 = i" by simp
    with step ih lt False d show ?thesis by simp
  qed
qed

text \<open>The last step of the walk, at an index that is not cached.\<close>

lemma walkCursors_last:
  assumes "cache i = None" and "page = i + 1"
  shows "walkCursors fs ps page i cache cur env =
     (case fetchMedicationsPage fs ps cur env of
        (Inl e, env') \<Rightarrow> (Inl e, cache, env')
      | (Inr result, env') \<Rightarrow>
          (case lastDoc result of
             Some d \<Rightarrow> (Inr (Some d), cache(i \<mapsto> d), env')
           | None \<Rightarrow> (Inr cur, cache, env')))"
  using assms
  by (subst walkCursors.simps)
    (simp add: walkCursors_done split: prod.splits sum.splits option.splits)

lemma loadPage_begin_simps [simp]:
  "lastDocuments (loadPage_begin s) = lastDocuments s"
  "pageSize (loadPage_begin s) = pageSize s"
  "(loadPage_begin s)\<lparr>lastDocuments := lastDocuments s\<rparr> = loadPage_begin s"
  by (simp_all add: loadPage_begin_def)

text \<open>The three ways through \<open>loadPage\<close> once its guards have let the call through.\<close>

lemma loadPage_count_fails:
  assumes "\<not> isLoading s" and "1 \<le> page" and "getCountFromServer fs w = (Inl e, w1)"
  shows "loadPage fs page s (w, tr) =
     (loadPage_catch e (loadPage_begin s), (w1, tr @ [CountEv (Inl e)]))"
  using assms
  by (simp add: loadPage_def loadPage_try_def getMedicationCount_unfold)

lemma loadPage_direct:
  assumes "\<not> isLoading s" and "1 \<le> page"
    and "1 < page \<longrightarrow> lastDocuments s (page - 1) \<noteq> None"
    and "getCountFromServer fs w = (Inr n, w1)"
    and "fetchMedicationsPage fs (pageSize s)
           (if 1 < page then lastDocuments s (page - 1) else None)
           (w1, tr @ [CountEv (Inr n)]) = (res, env3)"
  shows "loadPage fs page s (w, tr) =
     (case res of
        Inl e \<Rightarrow> loadPage_catch e (loadPage_begin s)
      | Inr r \<Rightarrow> loadPage_commit page n r (loadPage_begin s), env3)"
proof (cases "1 < page")
  case True
  with assms(3) obtain d where d: "lastDocuments s (page - 1) = Some d" by auto
  with assms True show ?thesis
    by (cases res) (simp_all add: loadPage_def loadPage_try_def getMedicationCount_unfold)
next
  case False
  with assms show ?thesis
    by (cases res) (simp_all add: loadPage_def loadPage_try_def getMedicationCount_unfold)
qed

lemma loadPage_bridge:
  assumes "\<not> isLoading s" and "0 \<le> K" and "dom (lastDocuments s) = {1..K}"
    and "getCountFromServer fs w = (Inr n, w1)"
    and "fetchMedicationsPage fs (pageSize s) (if 0 < K then lastDocuments s K else None)
           (w1, tr @ [CountEv (Inr n)]) = (res1, env2)"
  shows "loadPage fs (K + 2) s (w, tr) =
     (case res1 of
        Inl e \<Rightarrow> (loadPage_catch e (loadPage_begin s), env2)
      | Inr r1 \<Rightarrow>
          (let cache = (case lastDoc r1 of
                          Some d \<Rightarrow> (lastDocuments s)(K + 1 \<mapsto> d)
                        | None \<Rightarrow> lastDocuments s);
               cur = (case lastDoc r1 of
                        Some d \<Rightarrow> Some d
                      | None \<Rightarrow> (if 0 < K then lastDocuments s K else None))
           in case fetchMedicationsPage fs (pageSize s) cur env2 of
                (Inl e, env3) \<Rightarrow>
                  (loadPage_catch e ((loadPage_begin s)\<lparr>lastDocuments := cache\<rparr>), env3)
              | (Inr r2, env3) \<Rightarrow>
                  (loadPage_commit (K + 2) n r2 ((loadPage_begin s)\<lparr>lastDocuments := cache\<rparr>),
                   env3)))"
proof -
  let ?cache = "lastDocuments s"
  have cached: "\<forall>j. 1 \<le> j \<and> j < K + 1 \<longrightarrow> ?cache j \<noteq> None"
  proof (intro allI impI)
    fix j assume "1 \<le> j \<and> j < K + 1"
    then have "j \<in> dom ?cache" using assms(3) by simp
    then show "?cache j \<noteq> None" by (simp add: domIff)
  qed
  have "K + 1 \<notin> dom ?cache" using assms(3) by simp
  then have miss: "?cache (K + 1) = None" by (simp add: domIff)
  have walk: "walkCursors fs (pageSize s) (K + 2) 1 ?cache None (w1, tr @ [CountEv (Inr n)])
      = walkCursors fs (pageSize s) (K + 2) (K + 1) ?cache
          (if 0 < K then ?cache K else None) (w1, tr @ [CountEv (Inr n)])"
    using walkCursors_cached[OF cached, of "K + 2" fs "pageSize s" None
        "(w1, tr @ [CountEv (Inr n)])"] assms(2)
    by simp
  have last: "walkCursors fs (pageSize s) (K + 2) (K + 1) ?cache
          (if 0 < K then ?cache K else None) (w1, tr @ [CountEv (Inr n)])
      = (case res1 of
           Inl e \<Rightarrow> (Inl e, ?cache, env2)
         | Inr r1 \<Rightarrow>
             (case lastDoc r1 of
                Some d \<Rightarrow> (Inr (Some d), ?cache(K + 1 \<mapsto> d), env2)
              | None \<Rightarrow> (Inr (if 0 < K then ?cache K else None), ?cache, env2)))"
    using walkCursors_last[where cache = "?cache" and i = "K + 1" and page = "K + 2"
        and fs = fs and ps = "pageSize s" and cur = "if 0 < K then ?cache K else None"
        and env = "(w1, tr @ [CountEv (Inr n)])"] miss assms(5)
    by (simp split: sum.splits)
  have tryb: "loadPage_try fs (K + 2) (loadPage_begin s) (w, tr) =
      (case walkCursors fs (pageSize s) (K + 2) 1 ?cache None (w1, tr @ [CountEv (Inr n)]) of
         (Inl e, cache, env2) \<Rightarrow> (Inl e, cache, env2)
       | (Inr lastDoc', cache, env2) \<Rightarrow>
           (case fetchMedicationsPage fs (pageSize s) lastDoc' env2 of
              (Inl e, env3) \<Rightarrow> (Inl e, cache, env3)
            | (Inr result, env3) \<Rightarrow> (Inr (n, result), cache, env3)))"
  proof -
    have "lastDocuments s (1 + K) = None" using miss by (simp add: add.commute)
    then show ?thesis
      using assms(2) unfolding loadPage_try_def loadPage_begin_simps
      by (simp add: getMedicationCount_unfold[OF assms(4)])
  qed
  have guards: "\<not> isLoading s" "\<not> K + 2 < 1" using assms(1,2) by simp_all
  show ?thesis
  proof (cases res1)
    case (Inl e)
    with tryb walk last guards show ?thesis
      by (simp add: loadPage_def)
  next
    case (Inr r1)
    show ?thesis
    proof (cases "lastDoc r1")
      case None
      obtain res2 env3 where f2: "fetchMedicationsPage fs (pageSize s)
          (if 0 < K then ?cache K else None) env2 = (res2, env3)"
        by (cases "fetchMedicationsPage fs (pageSize s) (if 0 < K then ?cache K else None) env2")
      with tryb walk last guards Inr None show ?thesis
        by (cases res2) (simp_all add: loadPage_def)
    next
      case (Some d)
      obtain res2 env3 where f2: "fetchMedicationsPage fs (pageSize s) (Some d) env2 = (res2, env3)"
        by (cases "fetchMedicationsPage fs (pageSize s) (Some d) env2")
      with tryb walk last guards Inr Some show ?thesis
        by (cases res2) (simp_all add: loadPage_def)
    qed
  qed
qed


lemma loadPage_commit_simps [simp]:
  "error (loadPage_commit page n r (loadPage_begin s)) = None"
  "error (loadPage_commit page n r ((loadPage_begin s)\<lparr>lastDocuments := c\<rparr>)) = None"
  "ViewerState.medications (loadPage_commit page n r t) = PaginatedResult.medications r"
  "currentPage (loadPage_commit page n r t) = page"
  "ViewerState.totalCount (loadPage_commit page n r t) = n"
  "ViewerState.hasMore (loadPage_commit page n r t) = PaginatedResult.hasMore r"
  "isLoading (loadPage_commit page n r t) = False"
  "lastDocuments (loadPage_commit page n r t) =
     (case lastDoc r of Some d \<Rightarrow> (lastDocuments t)(page \<mapsto> d) | None \<Rightarrow> lastDocuments t)"
  by (simp_all add: loadPage_commit_def loadPage_begin_def)

lemma loadPage_catch_simps [simp]:
  "error (loadPage_catch e t) = Some (errMessage e ''Failed to load medications'')"
  "isLoading (loadPage_catch e t) = False"
  "ViewerState.medications (loadPage_catch e t) = ViewerState.medications t"
  "currentPage (loadPage_catch e t) = currentPage t"
  "lastDocuments (loadPage_catch e t) = lastDocuments t"
  by (simp_all add: loadPage_catch_def)

lemma cache_hit_single_fetch:
  assumes "\<not> isLoading s" and "dom (lastDocuments s) = {1..K}" and "1 \<le> N" and "N \<le> K"
    and run: "loadPage fs N s (w, tr) = (s', (w', tr'))"
  shows "lastDocuments s (N - 1) = (if N = 1 then None else lastDocuments s (N - 1))
    \<and> (1 < N \<longrightarrow> lastDocuments s (N - 1) \<noteq> None)
    \<and> ((error s' \<noteq> None \<and> pageFetches tr' = pageFetches tr)
       \<or> (\<exists>d. pageFetches tr' = pageFetches tr @ [DocsEv (pageSize s) (lastDocuments s (N - 1)) d]
             \<and> (case d of
                   Inl e \<Rightarrow> error s' \<noteq> None
                 | Inr docs \<Rightarrow> error s' = None \<and> ViewerState.medications s' = map data docs
                     \<and> currentPage s' = N)))"
proof -
  let ?cur = "lastDocuments s (N - 1)"
  have "0 \<notin> dom (lastDocuments s)" using assms(2) by simp
  then have zero: "lastDocuments s 0 = None" by (simp add: domIff)
  have hit: "1 < N \<longrightarrow> ?cur \<noteq> None"
  proof
    assume "1 < N"
    then have "N - 1 \<in> dom (lastDocuments s)" using assms(2,4) by simp
    then show "?cur \<noteq> None" by (simp add: domIff)
  qed
  have cur: "(if 1 < N then ?cur else None) = ?cur"
    using zero assms(3) by (cases "N = 1") auto
  have first: "?cur = (if N = 1 then None else ?cur)" using zero by simp
  obtain c w1 where c: "getCountFromServer fs w = (c, w1)" by (cases "getCountFromServer fs w")
  have main: "(error s' \<noteq> None \<and> pageFetches tr' = pageFetches tr)
       \<or> (\<exists>d. pageFetches tr' = pageFetches tr @ [DocsEv (pageSize s) ?cur d]
             \<and> (case d of
                   Inl e \<Rightarrow> error s' \<noteq> None
                 | Inr docs \<Rightarrow> error s' = None \<and> ViewerState.medications s' = map data docs
                     \<and> currentPage s' = N))"
  proof (cases c)
    case (Inl e)
    from loadPage_count_fails[OF assms(1,3) c[unfolded Inl], of tr] run
    have "s' = loadPage_catch e (loadPage_begin s)" and "tr' = tr @ [CountEv (Inl e)]"
      by simp_all
    then show ?thesis by simp
  next
    case (Inr n)
    show ?thesis
    proof (cases rule: fetchMedicationsPage_cases
        [of fs "pageSize s" ?cur w1 "tr @ [CountEv (Inr n)]"])
      case (fails c2 w2 e)
      from loadPage_direct[OF assms(1,3) hit c[unfolded Inr], of tr "Inl e"] fails(1) cur run
      have "s' = loadPage_catch e (loadPage_begin s)"
        and "tr' = (tr @ [CountEv (Inr n)]) @ [CountEv c2, DocsEv (pageSize s) ?cur (Inl e)]"
        by simp_all
      then have "pageFetches tr' = pageFetches tr @ [DocsEv (pageSize s) ?cur (Inl e)]
          \<and> (case (Inl e :: thrown + QueryDocumentSnapshot list) of
                   Inl e \<Rightarrow> error s' \<noteq> None
                 | Inr docs \<Rightarrow> error s' = None \<and> ViewerState.medications s' = map data docs
                     \<and> currentPage s' = N)"
        by simp
      then show ?thesis by blast
    next
      case (returns c2 w2 docs r)
      from loadPage_direct[OF assms(1,3) hit c[unfolded Inr], of tr "Inr r"] returns(1) cur run
      have "s' = loadPage_commit N n r (loadPage_begin s)"
        and "tr' = (tr @ [CountEv (Inr n)]) @ [CountEv c2, DocsEv (pageSize s) ?cur (Inr docs)]"
        by simp_all
      then have "pageFetches tr' = pageFetches tr @ [DocsEv (pageSize s) ?cur (Inr docs)]
          \<and> (case (Inr docs :: thrown + QueryDocumentSnapshot list) of
                   Inl e \<Rightarrow> error s' \<noteq> None
                 | Inr docs \<Rightarrow> error s' = None \<and> ViewerState.medications s' = map data docs
                     \<and> currentPage s' = N)"
        using returns(2) by simp
      then show ?thesis by blast
    qed
  qed
  from first hit main show ?thesis by blast
qed


lemma upd_option_case:
  "m k = None \<Longrightarrow> (case c of Some d \<Rightarrow> m(k \<mapsto> d) | None \<Rightarrow> m) = m(k := c)"
  by (cases c) (auto simp: fun_eq_iff)

lemma bridge_two_fetches:
  assumes "\<not> isLoading s" and "0 \<le> K" and "dom (lastDocuments s) = {1..K}"
    and run: "loadPage fs (K + 2) s (w, tr) = (s', (w', tr'))"
    and ok: "error s' = None"
  shows "\<exists>docs1 docs2.
      pageFetches tr' = pageFetches tr @
        [DocsEv (pageSize s) (lastDocuments s K) (Inr docs1),
         DocsEv (pageSize s)
           (case cursorOf docs1 of Some d \<Rightarrow> Some d | None \<Rightarrow> lastDocuments s K) (Inr docs2)]
      \<and> lastDocuments s' = (lastDocuments s)(K + 1 := cursorOf docs1, K + 2 := cursorOf docs2)
      \<and> ViewerState.medications s' = map data docs2
      \<and> currentPage s' = K + 2"
proof -
  let ?cache = "lastDocuments s"
  have "0 \<notin> dom ?cache" "K + 1 \<notin> dom ?cache" "K + 2 \<notin> dom ?cache"
    using assms(3) by simp_all
  then have zero: "?cache 0 = None" and m1: "?cache (K + 1) = None" and m2: "?cache (K + 2) = None"
    by (simp_all add: domIff)
  have curK: "(if 0 < K then ?cache K else None) = ?cache K"
    using zero assms(2) by (cases "K = 0") auto
  have ge1: "1 \<le> K + 2" using assms(2) by simp
  obtain c w1 where c: "getCountFromServer fs w = (c, w1)" by (cases "getCountFromServer fs w")
  show ?thesis
  proof (cases c)
    case (Inl e)
    from loadPage_count_fails[OF assms(1) ge1 c[unfolded Inl], of tr] run
    have "s' = loadPage_catch e (loadPage_begin s)" by simp
    with ok show ?thesis by simp
  next
    case (Inr n)
    note cnt = c[unfolded Inr]
    show ?thesis
    proof (cases rule: fetchMedicationsPage_cases
        [of fs "pageSize s" "?cache K" w1 "tr @ [CountEv (Inr n)]"])
      case (fails c2 w2 e)
      from loadPage_bridge[OF assms(1,2,3) cnt, of tr "Inl e"] fails(1) curK run
      have "s' = loadPage_catch e (loadPage_begin s)" by simp
      with ok show ?thesis by simp
    next
      case first: (returns c2 w2 docs1 r1)
      define cache2 where "cache2 = ?cache(K + 1 := cursorOf docs1)"
      define cur2 where
        "cur2 = (case cursorOf docs1 of Some d \<Rightarrow> Some d | None \<Rightarrow> ?cache K)"
      define tr2 where "tr2 = (tr @ [CountEv (Inr n)]) @ [CountEv c2, DocsEv (pageSize s) (?cache K) (Inr docs1)]"
      have c2: "(case lastDoc r1 of Some d \<Rightarrow> ?cache(K + 1 \<mapsto> d) | None \<Rightarrow> ?cache) = cache2"
        unfolding cache2_def first(3)
        using m1 by (rule upd_option_case[where m = "lastDocuments s" and k = "K + 1"])
      have k2: "(case lastDoc r1 of Some d \<Rightarrow> Some d | None \<Rightarrow> ?cache K) = cur2"
        unfolding cur2_def first(3) by simp
      have step: "loadPage fs (K + 2) s (w, tr) =
          (case fetchMedicationsPage fs (pageSize s) cur2 (w2, tr2) of
             (Inl e, env3) \<Rightarrow>
               (loadPage_catch e ((loadPage_begin s)\<lparr>lastDocuments := cache2\<rparr>), env3)
           | (Inr r2, env3) \<Rightarrow>
               (loadPage_commit (K + 2) n r2 ((loadPage_begin s)\<lparr>lastDocuments := cache2\<rparr>),
                env3))"
        using loadPage_bridge[OF assms(1,2,3) cnt, of tr "Inr r1" "(w2, tr2)"] first(1)
        unfolding curK tr2_def[symmetric]
        by (simp add: c2 k2 Let_def curK)
      show ?thesis
      proof (cases rule: fetchMedicationsPage_cases[of fs "pageSize s" cur2 w2 tr2])
        case (fails c3 w3 e)
        with step run have "s' = loadPage_catch e ((loadPage_begin s)\<lparr>lastDocuments := cache2\<rparr>)"
          by simp
        with ok show ?thesis by simp
      next
        case second: (returns c3 w3 docs2 r2)
        from step run second(1)
        have s': "s' = loadPage_commit (K + 2) n r2 ((loadPage_begin s)\<lparr>lastDocuments := cache2\<rparr>)"
          and tr': "tr' = tr2 @ [CountEv c3, DocsEv (pageSize s) cur2 (Inr docs2)]"
          by simp_all
        have "cache2 (K + 2) = None" using m2 by (simp add: cache2_def)
        then have "lastDocuments s' = cache2(K + 2 := cursorOf docs2)"
          using s' second(3) by (cases "cursorOf docs2") (auto simp: fun_eq_iff)
        moreover have "pageFetches tr' = pageFetches tr @
            [DocsEv (pageSize s) (?cache K) (Inr docs1), DocsEv (pageSize s) cur2 (Inr docs2)]"
          by (simp add: tr' tr2_def)
        moreover have "ViewerState.medications s' = map data docs2" "currentPage s' = K + 2"
          using s' second(2) by simp_all
        ultimately show ?thesis unfolding cache2_def cur2_def by blast
      qed
    qed
  qed
qed

section \<open>The cursor cache\<close>

text \<open>
  The two cases of a page load over a cache that holds a cursor for exactly the pages
  1..K: a page that is covered by the cache, and the page K + 2.
\<close>

lemma cursor_cache_general:
  assumes "\<not> isLoading s" and "0 \<le> K" and "dom (lastDocuments s) = {1..K}"
  shows "(\<forall>N s' w' tr'.
            1 \<le> N \<and> N \<le> K \<and> loadPage fs N s (w, tr) = (s', (w', tr')) \<longrightarrow>
              (1 < N \<longrightarrow> lastDocuments s (N - 1) \<noteq> None)
              \<and> ((error s' \<noteq> None \<and> pageFetches tr' = pageFetches tr)
                 \<or> (\<exists>d. pageFetches tr' =
                          pageFetches tr @ [DocsEv (pageSize s) (lastDocuments s (N - 1)) d]
                      \<and> (case d of
                            Inl e \<Rightarrow> error s' \<noteq> None
                          | Inr docs \<Rightarrow> error s' = None
                              \<and> ViewerState.medications s' = map data docs
                              \<and> currentPage s' = N))))
       \<and> (\<forall>s' w' tr'.
            loadPage fs (K + 2) s (w, tr) = (s', (w', tr')) \<and> error s' = None \<longrightarrow>
              (\<exists>docs1 docs2.
                 pageFetches tr' = pageFetches tr @
                   [DocsEv (pageSize s) (lastDocuments s K) (Inr docs1),
                    DocsEv (pageSize s)
                      (case cursorOf docs1 of Some d \<Rightarrow> Some d | None \<Rightarrow> lastDocuments s K)
                      (Inr docs2)]
                 \<and> lastDocuments s' =
                     (lastDocuments s)(K + 1 := cursorOf docs1, K + 2 := cursorOf docs2)
                 \<and> ViewerState.medications s' = map data docs2
                 \<and> currentPage s' = K + 2))"
proof (intro conjI allI impI)
  fix N s' w' tr'
  assume h: "1 \<le> N \<and> N \<le> K \<and> loadPage fs N s (w, tr) = (s', (w', tr'))"
  then have n: "1 \<le> N" "N \<le> K" and run: "loadPage fs N s (w, tr) = (s', (w', tr'))"
    by simp_all
  note a = cache_hit_single_fetch[OF assms(1,3) n run]
  { assume "1 < N" then show "lastDocuments s (N - 1) \<noteq> None" using a by blast }
  show "(error s' \<noteq> None \<and> pageFetches tr' = pageFetches tr)
      \<or> (\<exists>d. pageFetches tr' = pageFetches tr @ [DocsEv (pageSize s) (lastDocuments s (N - 1)) d]
            \<and> (case d of
                  Inl e \<Rightarrow> error s' \<noteq> None
                | Inr docs \<Rightarrow> error s' = None \<and> ViewerState.medications s' = map data docs
                    \<and> currentPage s' = N))"
    using a by blast
next
  fix s' w' tr'
  assume "loadPage fs (K + 2) s (w, tr) = (s', (w', tr')) \<and> error s' = None"
  then show "\<exists>docs1 docs2.
      pageFetches tr' = pageFetches tr @
        [DocsEv (pageSize s) (lastDocuments s K) (Inr docs1),
         DocsEv (pageSize s)
           (case cursorOf docs1 of Some d \<Rightarrow> Some d | None \<Rightarrow> lastDocuments s K) (Inr docs2)]
      \<and> lastDocuments s' = (lastDocuments s)(K + 1 := cursorOf docs1, K + 2 := cursorOf docs2)
      \<and> ViewerState.medications s' = map data docs2
      \<and> currentPage s' = K + 2"
    using bridge_two_fetches[OF assms, of fs w tr s' w' tr'] by simp
qed

lemmas action_eval =
  loadPage_def loadPage_try_def loadPage_begin_def loadPage_commit_def loadPage_catch_def
  fourDocStore_def sampleSnapshots_def smallPageState_def

text \<open>
  Loading page K + 1 over a cache for the pages 1..K: when the load caches a cursor for
  page K + 1, the cache is one for the pages 1..K + 1.
\<close>

lemma loadPage_next_cache:
  assumes "\<not> isLoading s" and "0 \<le> K" and "dom (lastDocuments s) = {1..K}"
    and run: "loadPage fs (K + 1) s (w, tr) = (s', env')"
  shows "\<not> isLoading s'
    \<and> (lastDocuments s' (K + 1) \<noteq> None \<longrightarrow> dom (lastDocuments s') = {1..K + 1})"
proof -
  let ?cache = "lastDocuments s"
  have "0 \<notin> dom ?cache" "K + 1 \<notin> dom ?cache" using assms(3) by simp_all
  then have zero: "?cache 0 = None" and miss: "?cache (K + 1) = None" by (simp_all add: domIff)
  have ge1: "1 \<le> K + 1" using assms(2) by simp
  have hit: "1 < K + 1 \<longrightarrow> ?cache (K + 1 - 1) \<noteq> None"
  proof
    assume "1 < K + 1"
    then have "K \<in> dom ?cache" using assms(3) by simp
    then show "?cache (K + 1 - 1) \<noteq> None" by (simp add: domIff)
  qed
  have cur: "(if 1 < K + 1 then ?cache (K + 1 - 1) else None) = ?cache K"
    using zero assms(2) by (cases "K = 0") auto
  have grow: "insert (K + 1) {1..K} = {1..K + 1}" using assms(2) by auto
  obtain c w1 where c: "getCountFromServer fs w = (c, w1)" by (cases "getCountFromServer fs w")
  show ?thesis
  proof (cases c)
    case (Inl e)
    from loadPage_count_fails[OF assms(1) ge1 c[unfolded Inl], of tr] run
    have "s' = loadPage_catch e (loadPage_begin s)" by simp
    then show ?thesis using miss by simp
  next
    case (Inr n)
    show ?thesis
    proof (cases rule: fetchMedicationsPage_cases
        [of fs "pageSize s" "?cache K" w1 "tr @ [CountEv (Inr n)]"])
      case (fails c2 w2 e)
      from loadPage_direct[OF assms(1) ge1 hit c[unfolded Inr], of tr "Inl e"] fails(1) cur run
      have "s' = loadPage_catch e (loadPage_begin s)" by simp
      then show ?thesis using miss by simp
    next
      case (returns c2 w2 docs r)
      from loadPage_direct[OF assms(1) ge1 hit c[unfolded Inr], of tr "Inr r"] returns(1) cur run
      have s': "s' = loadPage_commit (K + 1) n r (loadPage_begin s)" by simp
      show ?thesis
      proof (cases "lastDoc r")
        case None
        with s' miss show ?thesis by simp
      next
        case (Some d)
        with s' have "lastDocuments s' = ?cache(K + 1 \<mapsto> d)" by simp
        then have "dom (lastDocuments s') = insert (K + 1) {1..K}" using assms(3) by simp
        with grow s' show ?thesis by simp
      qed
    qed
  qed
qed

text \<open>
  Loading the pages 1..K in order from an empty cache, each load caching a cursor for its
  page, leaves a cache for exactly the pages 1..K.
\<close>

lemma loadInOrder_cache:
  assumes "lastDocuments s0 = Map.empty" and "\<not> isLoading s0"
    and "\<forall>k<K. lastDocuments (fst (loadInOrder fs (Suc k) s0 env0)) (int (Suc k)) \<noteq> None"
  shows "\<not> isLoading (fst (loadInOrder fs K s0 env0))
    \<and> dom (lastDocuments (fst (loadInOrder fs K s0 env0))) = {1..int K}"
  using assms(3)
proof (induction K)
  case 0
  show ?case using assms(1,2) by simp
next
  case (Suc K)
  obtain s w tr where k: "loadInOrder fs K s0 env0 = (s, (w, tr))" by (metis surj_pair)
  from Suc.prems have "\<forall>k<K. lastDocuments (fst (loadInOrder fs (Suc k) s0 env0)) (int (Suc k)) \<noteq> None"
    by simp
  from Suc.IH[OF this] k have nl: "\<not> isLoading s" and dm: "dom (lastDocuments s) = {1..int K}"
    by simp_all
  obtain s' env' where run: "loadPage fs (int K + 1) s (w, tr) = (s', env')" by (metis surj_pair)
  then have step: "loadInOrder fs (Suc K) s0 env0 = (s', env')" using k by (simp add: add.commute)
  from Suc.prems have "lastDocuments (fst (loadInOrder fs (Suc K) s0 env0)) (int (Suc K)) \<noteq> None"
    by simp
  with step have cached: "lastDocuments s' (int K + 1) \<noteq> None" by (simp add: add.commute)
  from loadPage_next_cache[OF nl _ dm run] cached
  have "\<not> isLoading s'" "dom (lastDocuments s') = {1..int K + 1}" by simp_all
  with step show ?case by (simp add: add.commute)
qed

text \<open>
  Claim C1. Start from an empty cursor cache and load the pages 1..K in order, each load
  caching a cursor for its page. A load of a page N with 1 \<le> N \<le> K then finds the
  cursor of page N - 1 in the cache and issues at most one page query, with that cursor:
  none when the count is rejected, and exactly one otherwise. A load of page K + 2 that
  succeeds issues exactly two page queries: one after the cursor of page K, for page
  K + 1, and one after the cursor that page provides, for page K + 2; it caches the
  cursor of each of the two pages (a page without documents has none).
\<close>

theorem cursor_cache_correctness:
  assumes "lastDocuments s0 = Map.empty" and "\<not> isLoading s0"
    and "\<forall>k<K. lastDocuments (fst (loadInOrder fs (Suc k) s0 env0)) (int (Suc k)) \<noteq> None"
    and "loadInOrder fs K s0 env0 = (s, (w, tr))"
  shows "(\<forall>N s' w' tr'.
            1 \<le> N \<and> N \<le> int K \<and> loadPage fs N s (w, tr) = (s', (w', tr')) \<longrightarrow>
              (1 < N \<longrightarrow> lastDocuments s (N - 1) \<noteq> None)
              \<and> ((error s' \<noteq> None \<and> pageFetches tr' = pageFetches tr)
                 \<or> (\<exists>d. pageFetches tr' =
                          pageFetches tr @ [DocsEv (pageSize s) (lastDocuments s (N - 1)) d]
                      \<and> (case d of
                            Inl e \<Rightarrow> error s' \<noteq> None
                          | Inr docs \<Rightarrow> error s' = None
                              \<and> ViewerState.medications s' = map data docs
                              \<and> currentPage s' = N))))
       \<and> (\<forall>s' w' tr'.
            loadPage fs (int K + 2) s (w, tr) = (s', (w', tr')) \<and> error s' = None \<longrightarrow>
              (\<exists>docs1 docs2.
                 pageFetches tr' = pageFetches tr @
                   [DocsEv (pageSize s) (lastDocuments s (int K)) (Inr docs1),
                    DocsEv (pageSize s)
                      (case cursorOf docs1 of Some d \<Rightarrow> Some d | None \<Rightarrow> lastDocuments s (int K))
                      (Inr docs2)]
                 \<and> lastDocuments s' =
                     (lastDocuments s)(int K + 1 := cursorOf docs1, int K + 2 := cursorOf docs2)
                 \<and> ViewerState.medications s' = map data docs2
                 \<and> currentPage s' = int K + 2))"
proof -
  from loadInOrder_cache[OF assms(1,2,3)] assms(4)
  have nl: "\<not> isLoading s" and dm: "dom (lastDocuments s) = {1..int K}" by simp_all
  show ?thesis by (rule cursor_cache_general[OF nl _ dm]) simp
qed

lemmas order_eval = loadInOrder.simps numeral_2_eq_2 One_nat_def

text \<open>
  One document per page on the four-document store: after the pages 1 and 2, page 1 is
  reloaded with one query and page 4 is reached with two.
\<close>

theorem cursor_cache_correctness_witness:
  "\<exists>s2 tr2 s1 tr1 s4 tr4 docs1 docs2.
     loadInOrder fourDocStore 2 smallPageState ((), []) = (s2, ((), tr2))
     \<and> dom (lastDocuments s2) = {1..2}
     \<and> loadPage fourDocStore 1 s2 ((), tr2) = (s1, ((), tr1))
     \<and> length (pageFetches tr1) = length (pageFetches tr2) + 1
     \<and> loadPage fourDocStore 4 s2 ((), tr2) = (s4, ((), tr4))
     \<and> error s4 = None
     \<and> pageFetches tr4 = pageFetches tr2 @
          [DocsEv 1 (lastDocuments s2 2) (Inr docs1),
           DocsEv 1 (case cursorOf docs1 of Some d \<Rightarrow> Some d | None \<Rightarrow> lastDocuments s2 2)
             (Inr docs2)]
     \<and> ViewerState.medications s4 = [mysterySyrup]"
proof -
  define r2 where "r2 = loadInOrder fourDocStore 2 smallPageState ((), [])"
  define s2 where "s2 = fst r2"
  define tr2 where "tr2 = snd (snd r2)"
  have run2: "loadInOrder fourDocStore 2 smallPageState ((), []) = (s2, ((), tr2))"
    by (simp add: s2_def tr2_def r2_def prod_eq_iff)
  have e0: "lastDocuments smallPageState = Map.empty" and n0: "\<not> isLoading smallPageState"
    by (simp_all add: smallPageState_def initialState_def)
  have c1: "lastDocuments (fst (loadInOrder fourDocStore (Suc 0) smallPageState ((), []))) (int (Suc 0)) \<noteq> None"
    by (simp add: action_eval store_eval sample_eval)
  have c2: "lastDocuments (fst (loadInOrder fourDocStore (Suc (Suc 0)) smallPageState ((), [])))
      (int (Suc (Suc 0))) \<noteq> None"
    by (simp add: action_eval store_eval sample_eval)
  have each: "\<forall>k<2. lastDocuments (fst (loadInOrder fourDocStore (Suc k) smallPageState ((), [])))
      (int (Suc k)) \<noteq> None"
  proof (intro allI impI)
    fix k :: nat assume "k < 2"
    then consider "k = 0" | "k = Suc 0" by linarith
    then show "lastDocuments (fst (loadInOrder fourDocStore (Suc k) smallPageState ((), [])))
      (int (Suc k)) \<noteq> None"
      using c1 c2 by cases simp_all
  qed
  have ps: "pageSize s2 = 1"
    by (simp add: s2_def r2_def order_eval action_eval store_eval sample_eval)
  have cache: "lastDocuments s2 = [1 \<mapsto> snapshotOf amoxicillin, 2 \<mapsto> snapshotOf ibuprofen]"
    by (simp add: s2_def r2_def order_eval action_eval store_eval sample_eval)
  have "{1..2::int} = {1, 2}" by auto
  then have dm: "dom (lastDocuments s2) = {1..2}" using cache by auto
  define r1 where "r1 = loadPage fourDocStore 1 s2 ((), tr2)"
  define s1 where "s1 = fst r1"
  define tr1 where "tr1 = snd (snd r1)"
  have run1: "loadPage fourDocStore 1 s2 ((), tr2) = (s1, ((), tr1))"
    by (simp add: s1_def tr1_def r1_def prod_eq_iff)
  have ok1: "error s1 = None"
    by (simp add: s1_def r1_def s2_def tr2_def r2_def order_eval action_eval store_eval sample_eval)
  define r4 where "r4 = loadPage fourDocStore 4 s2 ((), tr2)"
  define s4 where "s4 = fst r4"
  define tr4 where "tr4 = snd (snd r4)"
  have run4: "loadPage fourDocStore 4 s2 ((), tr2) = (s4, ((), tr4))"
    by (simp add: s4_def tr4_def r4_def prod_eq_iff)
  have ok4: "error s4 = None" and meds4: "ViewerState.medications s4 = [mysterySyrup]"
    by (simp_all add: s4_def r4_def s2_def tr2_def r2_def order_eval action_eval store_eval
        sample_eval walkCursors.simps)
  note T = cursor_cache_correctness [OF e0 n0 each run2, unfolded ps of_nat_numeral]
  have hit: "(error s1 \<noteq> None \<and> pageFetches tr1 = pageFetches tr2)
      \<or> (\<exists>d. pageFetches tr1 = pageFetches tr2 @ [DocsEv 1 (lastDocuments s2 (1 - 1)) d]
            \<and> (case d of
                  Inl e \<Rightarrow> error s1 \<noteq> None
                | Inr docs \<Rightarrow> error s1 = None \<and> ViewerState.medications s1 = map data docs
                    \<and> currentPage s1 = 1))"
    using T [THEN conjunct1, rule_format, of 1 s1 "()" tr1] run1 by simp
  with ok1 obtain d where "pageFetches tr1 = pageFetches tr2 @ [DocsEv 1 (lastDocuments s2 (1 - 1)) d]"
    by auto
  then have one: "length (pageFetches tr1) = length (pageFetches tr2) + 1" by simp
  have "\<exists>docs1 docs2.
      pageFetches tr4 = pageFetches tr2 @
        [DocsEv 1 (lastDocuments s2 2) (Inr docs1),
         DocsEv 1 (case cursorOf docs1 of Some d \<Rightarrow> Some d | None \<Rightarrow> lastDocuments s2 2)
           (Inr docs2)]"
    using T [THEN conjunct2, rule_format, of s4 "()" tr4] run4 ok4 by auto
  then obtain docs1 docs2 where two: "pageFetches tr4 = pageFetches tr2 @
        [DocsEv 1 (lastDocuments s2 2) (Inr docs1),
         DocsEv 1 (case cursorOf docs1 of Some d \<Rightarrow> Some d | None \<Rightarrow> lastDocuments s2 2)
           (Inr docs2)]"
    by auto
  from run2 dm run1 one run4 ok4 two meds4 show ?thesis by blast
qed

section \<open>Failed page loads\<close>





lemmas fail_store_eval = countFailStore_def queryFailStore_def


text \<open>The bulk load behaves the same way on failure.\<close>

lemma bulk_load_error_atomicity:
  assumes "\<not> isLoadingAll s" and "\<not> isLoading s"
    and run: "loadAllMedications fs s env = Some (s', env')"
    and failed: "error s' \<noteq> None"
  shows "\<exists>err. error s' = Some (errMessage err ''Failed to load all medications'')
      \<and> \<not> isLoadingAll s'
      \<and> ViewerState.medications s' = ViewerState.medications s
      \<and> currentPage s' = currentPage s"
proof -
  from assms(1,2) have g: "\<not> (isLoadingAll s \<or> isLoading s)" by simp
  obtain c env1 r s2 where
    cnt: "getMedicationCount fs env = (c, env1)"
    and loop: "fetchAll_loop fs (Some onProgress_cb) (case c of Inr n \<Rightarrow> Some n | Inl _ \<Rightarrow> None)
       [] None (loadAll_begin s) env1 = Some (r, s2, env')"
    and s': "s' = (case r of Inr allMeds \<Rightarrow> loadAll_commit allMeds s2 | Inl err \<Rightarrow> loadAll_catch err s2)"
    by (rule loadAllMedications_run[OF run g])
  from fetchAll_loop_frame[OF loop refl] obtain lp n where
    s2: "s2 = (loadAll_begin s)\<lparr>loadingProgress := lp, totalCount := n\<rparr>" by auto
  show ?thesis
  proof (cases r)
    case (Inr allMeds)
    with s' s2 have "error s' = None" by (simp add: loadAll_commit_def loadAll_begin_def)
    with failed show ?thesis by simp
  next
    case (Inl err)
    with s' s2 have "error s' = Some (errMessage err ''Failed to load all medications'')"
      "\<not> isLoadingAll s'" "ViewerState.medications s' = ViewerState.medications s"
      "currentPage s' = currentPage s"
      by (simp_all add: loadAll_catch_def loadAll_begin_def)
    then show ?thesis by blast
  qed
qed

section \<open>The count request of a page load\<close>

text \<open>
  Claim C2 says that a rejected count never fails a page load. It does: \<open>loadPage\<close>
  awaits \<open>getMedicationCount\<close> itself, inside its \<open>try\<close> block and with no handler of
  its own, so the rejection reaches the \<open>catch\<close> block (lemma \<open>loadPage_count_fails\<close>,
  for every store). On a store whose count is rejected and whose queries succeed, loading
  page 1 from the initial state sets the error slot and issues no page query, while the
  adapter's \<open>fetchMedicationsPage\<close> on the same store returns the page with total 0.
\<close>

theorem loadPage_count_failure_is_surfaced:
  "loadPage (countFailStore sampleSnapshots) 1 initialState ((), [])
     = (initialState\<lparr>error := Some ''permission-denied''\<rparr>,
        ((), [CountEv (Inl (Error ''permission-denied''))]))
   \<and> (\<exists>r tr'. fetchMedicationsPage (countFailStore sampleSnapshots) 100 None ((), [])
         = (Inr r, ((), tr'))
       \<and> PaginatedResult.medications r = sampleDocs
       \<and> PaginatedResult.totalCount r = 0)"
  by (simp add: action_eval fail_store_eval store_eval sample_eval errMessage_def initialState_def PAGE_SIZE_def)

section \<open>The single-flight guards\<close>

lemma loadPage_rejected_while_loading: "isLoading s \<Longrightarrow> loadPage fs page s env = (s, env)"
  by (simp add: loadPage_def)

lemma loadAllMedications_rejected_while_loading:
  "isLoadingAll s \<or> isLoading s \<Longrightarrow> loadAllMedications fs s env = Some (s, env)"
  by (simp add: loadAllMedications_def)

lemma loadPage_begin_in_flight: "isLoading (loadPage_begin s)"
  by (simp add: loadPage_begin_def)

lemma loadAll_begin_in_flight: "isLoadingAll (loadAll_begin s) \<and> isLoading (loadAll_begin s) = isLoading s"
  by (simp add: loadAll_begin_def)

text \<open>
  Claim C4 says that \<open>loadPage\<close> is rejected while a bulk load is in flight. The two
  lemmas above are the part that holds: \<open>loadPage\<close> is rejected while \<open>isLoading\<close>,
  and \<open>loadAllMedications\<close> while either flag is set. But \<open>loadPage\<close> does not test
  \<open>isLoadingAll\<close>: in the state a bulk load is in after its first \<open>runInAction\<close>,
  \<open>loadPage 1\<close> runs, queries the store and replaces the loaded records.
\<close>

theorem loadPage_runs_during_bulk_load:
  "isLoadingAll (loadAll_begin initialState)
   \<and> \<not> isLoading (loadAll_begin initialState)
   \<and> (\<exists>s' tr'. loadPage fourDocStore 1 (loadAll_begin initialState) ((), []) = (s', ((), tr'))
        \<and> s' \<noteq> loadAll_begin initialState
        \<and> ViewerState.medications s' = sampleDocs
        \<and> isLoadingAll s'
        \<and> tr' = [CountEv (Inr 4), CountEv (Inr 4), DocsEv 100 None (Inr sampleSnapshots)])"
  by (simp add: action_eval loadAll_begin_def store_eval sample_eval initialState_def PAGE_SIZE_def)

section \<open>The bulk load\<close>

lemma drained_append [simp]: "drained (xs @ ys) = drained xs @ drained ys"
  by (induction xs rule: drained.induct) simp_all

text \<open>
  When the drain loop returns a list, it is what it started with followed by the
  documents of the pages it fetched, in order.
\<close>

lemma fetchAll_loop_drained:
  assumes "fetchAll_loop fs cb tc meds ld st env = Some y"
  shows "\<exists>evs. snd (snd (snd y)) = snd env @ evs
       \<and> (\<forall>ms. fst y = Inr ms \<longrightarrow> ms = meds @ drained evs)"
  using assms
proof (induction rule: fetchAll_loop.raw_induct[rotated 1, consumes 1, case_names step])
  case (step S fs cb tc meds ld st env y)
  obtain w tr where env: "env = (w, tr)" by (cases env)
  show ?case
  proof (cases rule: fetchMedicationsPage_cases[of fs 100 ld w tr])
    case (fails c w2 e)
    with step(2) env have "y = (Inl e, st, (w2, tr @ [CountEv c, DocsEv 100 ld (Inl e)]))"
      by simp
    then show ?thesis using env by simp
  next
    case (returns c w2 docs r)
    let ?evs = "[CountEv c, DocsEv 100 ld (Inr docs)]"
    define meds' where "meds' = meds @ PaginatedResult.medications r"
    define st1 where "st1 = (case cb of None \<Rightarrow> st | Some f \<Rightarrow> f (length meds') tc st)"
    have d: "drained ?evs = PaginatedResult.medications r" using returns(2) by simp
    show ?thesis
    proof (cases "PaginatedResult.hasMore r")
      case True
      with step(2) env returns(1)
      have "S fs cb tc meds' (lastDoc r) st1 (w2, tr @ ?evs) = Some y"
        unfolding meds'_def st1_def by (simp add: Let_def)
      from step(1)[OF this] obtain evs where
        "snd (snd (snd y)) = (tr @ ?evs) @ evs"
        "\<forall>ms. fst y = Inr ms \<longrightarrow> ms = meds' @ drained evs"
        by auto
      then have "snd (snd (snd y)) = snd env @ (?evs @ evs)
          \<and> (\<forall>ms. fst y = Inr ms \<longrightarrow> ms = meds @ drained (?evs @ evs))"
        using env d by (simp add: meds'_def)
      then show ?thesis by blast
    next
      case False
      with step(2) env returns(1) have "y = (Inr meds', st1, (w2, tr @ ?evs))"
        unfolding meds'_def st1_def by (simp add: Let_def)
      then have "snd (snd (snd y)) = snd env @ ?evs
          \<and> (\<forall>ms. fst y = Inr ms \<longrightarrow> ms = meds @ drained ?evs)"
        using env d by (simp add: meds'_def)
      then show ?thesis by blast
    qed
  qed
qed

text \<open>
  Claim C9. A bulk load that got past its guard, returned and left no error has committed:
  the loaded records are the documents of all the pages fetched during the run,
  concatenated in order; \<open>totalCount\<close> is the length of that list, whatever the store
  counted; the current page is 1, \<open>hasMore\<close> is false, \<open>allMedicationsLoaded\<close> is
  true and \<open>isLoadingAll\<close> is false.
\<close>

theorem bulk_load_commit:
  assumes "\<not> isLoadingAll s" and "\<not> isLoading s"
    and run: "loadAllMedications fs s (w, tr) = Some (s', (w', tr'))"
    and ok: "error s' = None"
  shows "\<exists>evs. tr' = tr @ evs
      \<and> ViewerState.medications s' = drained evs
      \<and> ViewerState.totalCount s' = length (drained evs)
      \<and> currentPage s' = 1
      \<and> \<not> ViewerState.hasMore s'
      \<and> allMedicationsLoaded s'
      \<and> \<not> isLoadingAll s'"
proof -
  from assms(1,2) have g: "\<not> (isLoadingAll s \<or> isLoading s)" by simp
  obtain c env1 r s2 where
    cnt: "getMedicationCount fs (w, tr) = (c, env1)"
    and loop: "fetchAll_loop fs (Some onProgress_cb) (case c of Inr n \<Rightarrow> Some n | Inl _ \<Rightarrow> None)
       [] None (loadAll_begin s) env1 = Some (r, s2, (w', tr'))"
    and s': "s' = (case r of Inr allMeds \<Rightarrow> loadAll_commit allMeds s2 | Inl err \<Rightarrow> loadAll_catch err s2)"
    by (rule loadAllMedications_run[OF run g])
  obtain c' w1 where c': "getCountFromServer fs w = (c', w1)" by (cases "getCountFromServer fs w")
  from cnt getMedicationCount_unfold[OF c', of tr] have env1: "env1 = (w1, tr @ [CountEv c])"
    by auto
  from fetchAll_loop_drained[OF loop] env1 obtain evs where
    evs: "tr' = (tr @ [CountEv c]) @ evs" "\<forall>ms. r = Inr ms \<longrightarrow> ms = drained evs"
    by auto
  show ?thesis
  proof (cases r)
    case (Inl err)
    with s' have "error s' \<noteq> None" by (simp add: loadAll_catch_def)
    with ok show ?thesis by simp
  next
    case (Inr allMeds)
    with evs(2) have a: "allMeds = drained ([CountEv c] @ evs)" by simp
    from s' Inr have "ViewerState.medications s' = allMeds"
      "ViewerState.totalCount s' = length allMeds" "currentPage s' = 1"
      "\<not> ViewerState.hasMore s'" "allMedicationsLoaded s'" "\<not> isLoadingAll s'"
      by (simp_all add: loadAll_commit_def)
    with a evs(1) have "tr' = tr @ ([CountEv c] @ evs)
      \<and> ViewerState.medications s' = drained ([CountEv c] @ evs)
      \<and> ViewerState.totalCount s' = length (drained ([CountEv c] @ evs))
      \<and> currentPage s' = 1
      \<and> \<not> ViewerState.hasMore s'
      \<and> allMedicationsLoaded s'
      \<and> \<not> isLoadingAll s'"
      by simp
    then show ?thesis by blast
  qed
qed

lemmas bulk_eval =
  loadAllMedications_def fetchAllMedications_def fetchAll_loop.simps scriptedStore_def
  twoPageScript_def fetchMedicationsPage_def getMedicationCount_def runQuery_def
  loadAll_begin_def loadAll_commit_def loadAll_catch_def onProgress_cb_def initialState_def
  snapshotOf_def Let_def

text \<open>
  A store that counts 7 and serves a full page of a hundred documents and then a page of
  one: the bulk load returns after two pages with 101 records and a total of 101.
\<close>

theorem bulk_load_commit_witness:
  "\<exists>s' tr'.
     loadAllMedications (scriptedStore 7 twoPageScript) initialState (0, []) = Some (s', (2, tr'))
     \<and> ViewerState.medications s' = replicate 100 amoxicillin @ [ibuprofen]
     \<and> ViewerState.medications s' = drained tr'
     \<and> ViewerState.totalCount s' = 101
     \<and> currentPage s' = 1
     \<and> \<not> ViewerState.hasMore s'
     \<and> allMedicationsLoaded s'
     \<and> \<not> isLoadingAll s'"
proof -
  define r where
    "r = the (loadAllMedications (scriptedStore 7 twoPageScript) initialState (0, []))"
  define s' where "s' = fst r"
  define tr' where "tr' = snd (snd r)"
  have run: "loadAllMedications (scriptedStore 7 twoPageScript) initialState (0, [])
      = Some (s', (2, tr'))"
    by (simp add: s'_def tr'_def r_def bulk_eval)
  have ok: "error s' = None"
    by (simp add: s'_def r_def bulk_eval)
  have meds: "ViewerState.medications s' = replicate 100 amoxicillin @ [ibuprofen]"
    by (simp add: s'_def r_def bulk_eval)
  have g: "\<not> isLoadingAll initialState" "\<not> isLoading initialState"
    by (simp_all add: initialState_def)
  from bulk_load_commit [OF g run ok] obtain evs where
    "tr' = [] @ evs" "ViewerState.medications s' = drained evs"
    "ViewerState.totalCount s' = length (drained evs)" "currentPage s' = 1"
    "\<not> ViewerState.hasMore s'" "allMedicationsLoaded s'" "\<not> isLoadingAll s'"
    by blast
  with meds have "ViewerState.medications s' = drained tr'"
    "ViewerState.totalCount s' = 101" "currentPage s' = 1"
    "\<not> ViewerState.hasMore s'" "allMedicationsLoaded s'" "\<not> isLoadingAll s'"
    by simp_all
  with run meds show ?thesis by blast
qed

section \<open>Sorting\<close>

lemma set_insert_cmp [simp]: "set (insert_cmp c x ys) = insert x (set ys)"
  by (induction ys) auto

lemma mset_insert_cmp [simp]: "mset (insert_cmp c x ys) = add_mset x (mset ys)"
  by (induction ys) auto

lemma array_sort_Cons: "array_sort c (x # xs) = insert_cmp c x (array_sort c xs)"
  by (simp add: array_sort_def)

lemma array_sort_Nil [simp]: "array_sort c [] = []"
  by (simp add: array_sort_def)

lemma mset_array_sort [simp]: "mset (array_sort c xs) = mset xs"
  by (induction xs) (simp_all add: array_sort_Cons)

lemma set_array_sort [simp]: "set (array_sort c xs) = set xs"
  by (induction xs) (simp_all add: array_sort_Cons)

text \<open>
  A comparator that agrees with the order of a key sorts like the library's stable
  sort by that key.
\<close>

lemma insert_cmp_eq_insort_key:
  fixes k :: "'a \<Rightarrow> 'b::linorder"
  assumes "\<And>a b. (c a b \<le> 0) = (k a \<le> k b)"
  shows "insert_cmp c x ys = insort_key k x ys"
  by (induction ys) (simp_all add: assms)

lemma array_sort_eq_sort_key:
  fixes k :: "'a \<Rightarrow> 'b::linorder"
  assumes "\<And>a b. (c a b \<le> 0) = (k a \<le> k b)"
  shows "array_sort c xs = sort_key k xs"
  by (induction xs) (simp_all add: array_sort_Cons insert_cmp_eq_insort_key[of c k, OF assms])

lemma sorted_rev_map_iff:
  fixes k :: "'a \<Rightarrow> number"
  shows "sorted (rev (map k zs)) \<longleftrightarrow> sorted (map (\<lambda>a. - k a) zs)"
  by (simp add: sorted_wrt_rev sorted_wrt_map)

lemma sortedMedications_price_asc:
  assumes "sortField s = Median_price" and "sortDirection s = Asc"
  shows "sortedMedications lc s = sort_key medianPrice (filteredMedications s)"
  unfolding sortedMedications_def
  by (rule array_sort_eq_sort_key) (simp add: compareFn_def sortDir_def assms)

lemma sortedMedications_price_desc:
  assumes "sortField s = Median_price" and "sortDirection s = Desc"
  shows "sortedMedications lc s = sort_key (\<lambda>m. - medianPrice m) (filteredMedications s)"
  unfolding sortedMedications_def
  by (rule array_sort_eq_sort_key) (simp add: compareFn_def sortDir_def assms)

lemma sortedMedications_ndc_asc:
  assumes "sortField s = Ndc_count" and "sortDirection s = Asc"
  shows "sortedMedications lc s = sort_key ndcLinkCount (filteredMedications s)"
  unfolding sortedMedications_def
  by (rule array_sort_eq_sort_key) (simp add: compareFn_def sortDir_def assms)

lemma sortedMedications_ndc_desc:
  assumes "sortField s = Ndc_count" and "sortDirection s = Desc"
  shows "sortedMedications lc s = sort_key (\<lambda>m. - int (ndcLinkCount m)) (filteredMedications s)"
  unfolding sortedMedications_def
  by (rule array_sort_eq_sort_key) (simp add: compareFn_def sortDir_def assms)

lemma numeric_order:
  "(sortField s = Median_price \<and> sortDirection s = Asc \<longrightarrow>
      sorted (map medianPrice (sortedMedications lc s)))
   \<and> (sortField s = Median_price \<and> sortDirection s = Desc \<longrightarrow>
      sorted (rev (map medianPrice (sortedMedications lc s))))
   \<and> (sortField s = Ndc_count \<and> sortDirection s = Asc \<longrightarrow>
      sorted (map ndcLinkCount (sortedMedications lc s)))
   \<and> (sortField s = Ndc_count \<and> sortDirection s = Desc \<longrightarrow>
      sorted (rev (map ndcLinkCount (sortedMedications lc s))))"
proof (intro conjI impI)
  assume "sortField s = Median_price \<and> sortDirection s = Asc"
  then show "sorted (map medianPrice (sortedMedications lc s))"
    by (simp add: sortedMedications_price_asc)
next
  assume "sortField s = Median_price \<and> sortDirection s = Desc"
  then have "sorted (map (\<lambda>m. - medianPrice m) (sortedMedications lc s))"
    by (simp add: sortedMedications_price_desc)
  then show "sorted (rev (map medianPrice (sortedMedications lc s)))"
    by (simp add: sorted_rev_map_iff)
next
  assume "sortField s = Ndc_count \<and> sortDirection s = Asc"
  then show "sorted (map ndcLinkCount (sortedMedications lc s))"
    by (simp add: sortedMedications_ndc_asc)
next
  assume "sortField s = Ndc_count \<and> sortDirection s = Desc"
  then have "sorted (map (\<lambda>m. - int (ndcLinkCount m)) (sortedMedications lc s))"
    by (simp add: sortedMedications_ndc_desc)
  then show "sorted (rev (map ndcLinkCount (sortedMedications lc s)))"
    by (simp add: sorted_wrt_rev sorted_wrt_map)
qed


text \<open>Sorting with a comparator that orders the list strictly.\<close>

lemma strictlyOrders_total:
  "strictlyOrders c xs \<Longrightarrow> a \<in> set xs \<Longrightarrow> b \<in> set xs \<Longrightarrow> a \<noteq> b \<Longrightarrow>
     (c a b < 0 \<and> 0 < c b a) \<or> (0 < c a b \<and> c b a < 0)"
  unfolding strictlyOrders_def by blast

lemma strictlyOrders_trans:
  "strictlyOrders c xs \<Longrightarrow> a \<in> set xs \<Longrightarrow> b \<in> set xs \<Longrightarrow> d \<in> set xs \<Longrightarrow>
     c a b < 0 \<Longrightarrow> c b d < 0 \<Longrightarrow> c a d < 0"
  unfolding strictlyOrders_def by blast

lemma strictlyOrders_distinct: "strictlyOrders c xs \<Longrightarrow> distinct xs"
  unfolding strictlyOrders_def by blast

lemma strictlyOrdersI:
  assumes "distinct xs"
    and "\<And>a b. a \<in> set xs \<Longrightarrow> b \<in> set xs \<Longrightarrow> a \<noteq> b \<Longrightarrow>
          (c a b < 0 \<and> 0 < c b a) \<or> (0 < c a b \<and> c b a < 0)"
    and "\<And>a b d. a \<in> set xs \<Longrightarrow> b \<in> set xs \<Longrightarrow> d \<in> set xs \<Longrightarrow>
          c a b < 0 \<Longrightarrow> c b d < 0 \<Longrightarrow> c a d < 0"
  shows "strictlyOrders c xs"
  unfolding strictlyOrders_def
proof (intro conjI ballI impI)
  show "distinct xs" by (rule assms(1))
next
  fix a b assume "a \<in> set xs" "b \<in> set xs" "a \<noteq> b"
  then show "(c a b < 0 \<and> 0 < c b a) \<or> (0 < c a b \<and> c b a < 0)" by (rule assms(2))
next
  fix a b d assume m: "a \<in> set xs" "b \<in> set xs" "d \<in> set xs" and h: "c a b < 0 \<and> c b d < 0"
  from h have "c a b < 0" "c b d < 0" by simp_all
  with m show "c a d < 0" by (rule assms(3))
qed

lemma strictlyOrders_Cons:
  assumes "strictlyOrders c (x # xs)"
  shows "strictlyOrders c xs"
proof (rule strictlyOrdersI)
  from strictlyOrders_distinct[OF assms] show "distinct xs" by simp
next
  fix a b assume "a \<in> set xs" "b \<in> set xs" "a \<noteq> b"
  then show "(c a b < 0 \<and> 0 < c b a) \<or> (0 < c a b \<and> c b a < 0)"
    by (intro strictlyOrders_total[OF assms]) simp_all
next
  fix a b d assume "a \<in> set xs" "b \<in> set xs" "d \<in> set xs" "c a b < 0" "c b d < 0"
  then show "c a d < 0"
    by (intro strictlyOrders_trans[OF assms, of a b d]) simp_all
qed

lemma insert_cmp_sorted:
  assumes "sorted_wrt (\<lambda>a b. a \<noteq> b \<and> c a b < 0) ys"
    and "x \<notin> set ys"
    and tot: "\<And>a b. a \<in> insert x (set ys) \<Longrightarrow> b \<in> insert x (set ys) \<Longrightarrow> a \<noteq> b \<Longrightarrow>
            (c a b < 0 \<and> 0 < c b a) \<or> (0 < c a b \<and> c b a < 0)"
    and trans: "\<And>a b d. a \<in> insert x (set ys) \<Longrightarrow> b \<in> insert x (set ys) \<Longrightarrow>
            d \<in> insert x (set ys) \<Longrightarrow> c a b < 0 \<Longrightarrow> c b d < 0 \<Longrightarrow> c a d < 0"
  shows "sorted_wrt (\<lambda>a b. a \<noteq> b \<and> c a b < 0) (insert_cmp c x ys)"
  using assms
proof (induction ys)
  case Nil
  show ?case by simp
next
  case (Cons y ys)
  from Cons.prems(2) have xy: "x \<noteq> y" and xn: "x \<notin> set ys" by auto
  from Cons.prems(1) have sy: "\<And>z. z \<in> set ys \<Longrightarrow> y \<noteq> z \<and> c y z < 0"
    and ss: "sorted_wrt (\<lambda>a b. a \<noteq> b \<and> c a b < 0) ys" by auto
  have mx: "x \<in> insert x (set (y # ys))" and my: "y \<in> insert x (set (y # ys))" by simp_all
  from Cons.prems(3)[OF mx my xy]
  have dich: "(c x y < 0 \<and> 0 < c y x) \<or> (0 < c x y \<and> c y x < 0)" .
  show ?case
  proof (cases "c x y \<le> 0")
    case True
    with dich have lt: "c x y < 0" by auto
    have "x \<noteq> z \<and> c x z < 0" if z: "z \<in> set ys" for z
    proof -
      have mz: "z \<in> insert x (set (y # ys))" using z by simp
      from sy[OF z] have "c y z < 0" by simp
      from Cons.prems(4)[OF mx my mz lt this] have "c x z < 0" .
      with xn z show ?thesis by auto
    qed
    with True lt xy Cons.prems(1) show ?thesis by simp
  next
    case False
    with dich have yx: "c y x < 0" by auto
    have tot': "(c a b < 0 \<and> 0 < c b a) \<or> (0 < c a b \<and> c b a < 0)"
      if "a \<in> insert x (set ys)" "b \<in> insert x (set ys)" "a \<noteq> b" for a b
      using that by (intro Cons.prems(3)) auto
    have trans': "c a d < 0"
      if "a \<in> insert x (set ys)" "b \<in> insert x (set ys)" "d \<in> insert x (set ys)"
        "c a b < 0" "c b d < 0" for a b d
      using that by (intro Cons.prems(4)[of a b d]) auto
    from Cons.IH[OF ss xn tot' trans']
    have "sorted_wrt (\<lambda>a b. a \<noteq> b \<and> c a b < 0) (insert_cmp c x ys)" by simp
    moreover have "\<forall>z\<in>set (insert_cmp c x ys). y \<noteq> z \<and> c y z < 0"
      using sy yx xy by auto
    ultimately show ?thesis using False by simp
  qed
qed

lemma array_sort_sorted:
  assumes "strictlyOrders c xs"
  shows "sorted_wrt (\<lambda>a b. a \<noteq> b \<and> c a b < 0) (array_sort c xs)"
  using assms
proof (induction xs)
  case Nil
  then show ?case by simp
next
  case (Cons x xs)
  from Cons.prems have so: "strictlyOrders c xs" by (rule strictlyOrders_Cons)
  from strictlyOrders_distinct[OF Cons.prems] have xn: "x \<notin> set (array_sort c xs)"
    by simp
  have tot: "(c a b < 0 \<and> 0 < c b a) \<or> (0 < c a b \<and> c b a < 0)"
    if "a \<in> insert x (set (array_sort c xs))" "b \<in> insert x (set (array_sort c xs))" "a \<noteq> b"
    for a b
    using that by (intro strictlyOrders_total[OF Cons.prems]) simp_all
  have trans: "c a d < 0"
    if "a \<in> insert x (set (array_sort c xs))" "b \<in> insert x (set (array_sort c xs))"
      "d \<in> insert x (set (array_sort c xs))" "c a b < 0" "c b d < 0" for a b d
    using that by (intro strictlyOrders_trans[OF Cons.prems, of a b d]) simp_all
  from insert_cmp_sorted[OF Cons.IH[OF so] xn tot trans]
  show ?case by (simp add: array_sort_Cons)
qed

lemma sorted_wrt_unique:
  assumes "sorted_wrt R xs" and "sorted_wrt R ys" and "set xs = set ys"
    and "\<forall>a\<in>set xs. \<forall>b\<in>set xs. R a b \<longrightarrow> \<not> R b a"
  shows "xs = ys"
  using assms
proof (induction xs arbitrary: ys)
  case Nil
  then show ?case by simp
next
  case (Cons x xs)
  from Cons.prems(3) obtain y ys' where ys: "ys = y # ys'" by (cases ys) auto
  have nxx: "\<not> R x x" using Cons.prems(4) by auto
  have nyy: "\<not> R y y" using Cons.prems(3,4) ys by auto
  have xy: "x = y"
  proof (rule ccontr)
    assume ne: "x \<noteq> y"
    from Cons.prems(3) ys ne have "x \<in> set ys'" "y \<in> set xs" by auto
    with Cons.prems(1,2) ys have "R y x" "R x y" by auto
    with Cons.prems(3,4) ys show False by auto
  qed
  have "x \<notin> set xs" using Cons.prems(1) nxx by auto
  moreover have "y \<notin> set ys'" using Cons.prems(2) ys nyy by auto
  ultimately have e: "set xs = set ys'" using Cons.prems(3) ys xy by auto
  have s1: "sorted_wrt R xs" and s2: "sorted_wrt R ys'" using Cons.prems(1,2) ys by auto
  have as: "\<forall>a\<in>set xs. \<forall>b\<in>set xs. R a b \<longrightarrow> \<not> R b a" using Cons.prems(4) by auto
  have "xs = ys'" by (rule Cons.IH[OF s1 s2 e as])
  with xy ys show ?case by simp
qed

lemma strictlyOrders_negate:
  assumes "strictlyOrders c xs"
  shows "strictlyOrders (\<lambda>a b. - c a b) xs"
proof -
  note d = strictlyOrders_distinct[OF assms]
  note tot = strictlyOrders_total[OF assms]
  note trans = strictlyOrders_trans[OF assms]
  have trans': "0 < c a d"
    if m: "a \<in> set xs" "b \<in> set xs" "d \<in> set xs" and ab: "0 < c a b" and bd: "0 < c b d"
    for a b d
  proof (cases "a = b \<or> b = d")
    case True
    with ab bd show ?thesis by auto
  next
    case False
    then have ne: "a \<noteq> b" "b \<noteq> d" by auto
    from tot[OF m(1,2) ne(1)] ab have ba: "c b a < 0" by auto
    from tot[OF m(2,3) ne(2)] bd have db: "c d b < 0" by auto
    from trans[OF m(3,2,1) db ba] have da: "c d a < 0" .
    show ?thesis
    proof (cases "a = d")
      case True
      with ab db show ?thesis by auto
    next
      case False
      from tot[OF m(1,3) False] da show ?thesis by auto
    qed
  qed
  show ?thesis
  proof (rule strictlyOrdersI)
    show "distinct xs" by (rule d)
  next
    fix a b assume "a \<in> set xs" "b \<in> set xs" "a \<noteq> b"
    from tot[OF this]
    show "(- c a b < 0 \<and> 0 < - c b a) \<or> (0 < - c a b \<and> - c b a < 0)" by auto
  next
    fix a b d assume m: "a \<in> set xs" "b \<in> set xs" "d \<in> set xs"
      and "- c a b < 0" "- c b d < 0"
    then have "0 < c a b" "0 < c b d" by auto
    from trans'[OF m this] show "- c a d < 0" by simp
  qed
qed

text \<open>Negating such a comparator reverses the sorted list.\<close>

lemma array_sort_negate:
  assumes so: "strictlyOrders c xs"
  shows "array_sort (\<lambda>a b. - c a b) xs = rev (array_sort c xs)"
proof -
  let ?R = "\<lambda>a b. a \<noteq> b \<and> c a b < 0"
  note tot = strictlyOrders_total[OF so]
  have up: "sorted_wrt ?R (array_sort c xs)" by (rule array_sort_sorted[OF so])
  have "sorted_wrt (\<lambda>a b. a \<noteq> b \<and> - c a b < 0) (array_sort (\<lambda>a b. - c a b) xs)"
    by (rule array_sort_sorted[OF strictlyOrders_negate[OF so]])
  then have "sorted_wrt (\<lambda>a b. b \<noteq> a \<and> - c b a < 0) (rev (array_sort (\<lambda>a b. - c a b) xs))"
    by (simp add: sorted_wrt_rev)
  then have down: "sorted_wrt ?R (rev (array_sort (\<lambda>a b. - c a b) xs))"
  proof (rule sorted_wrt_mono_rel[rotated])
    fix a b
    assume "a \<in> set (rev (array_sort (\<lambda>a b. - c a b) xs))"
      "b \<in> set (rev (array_sort (\<lambda>a b. - c a b) xs))" "b \<noteq> a \<and> - c b a < 0"
    then have "a \<in> set xs" "b \<in> set xs" "a \<noteq> b" "0 < c b a" by auto
    with tot[of a b] show "a \<noteq> b \<and> c a b < 0" by auto
  qed
  have asym: "\<forall>a\<in>set (array_sort c xs). \<forall>b\<in>set (array_sort c xs). ?R a b \<longrightarrow> \<not> ?R b a"
  proof (intro ballI impI)
    fix a b assume "a \<in> set (array_sort c xs)" "b \<in> set (array_sort c xs)" "?R a b"
    then have "a \<in> set xs" "b \<in> set xs" "a \<noteq> b" "c a b < 0" by auto
    with tot[of a b] show "\<not> ?R b a" by auto
  qed
  have "array_sort c xs = rev (array_sort (\<lambda>a b. - c a b) xs)"
    by (rule sorted_wrt_unique[OF up down _ asym]) simp
  then show ?thesis by (simp add: rev_swap)
qed

subsection \<open>Toggling the direction\<close>

lemma compareFn_negate: "compareFn lc f (- d) = (\<lambda>a b. - compareFn lc f d a b)"
  by (cases f) (simp_all add: compareFn_def fun_eq_iff)

lemma sortDir_toggle: "sortDir (setSortField (sortField s) s) = - sortDir s"
  by (simp add: sortDir_def setSortField_def)

lemma sortDir_cases: "sortDir s = 1 \<or> sortDir s = - 1"
  by (simp add: sortDir_def)

lemma filteredMedications_setSortField [simp]:
  "filteredMedications (setSortField f s) = filteredMedications s"
  by (simp add: filteredMedications_eq setSortField_def)

lemma sortField_toggle [simp]: "sortField (setSortField (sortField s) s) = sortField s"
  by (simp add: setSortField_def)

lemma toggle_reverses:
  assumes "strictlyOrders (compareFn lc (sortField s) 1) (filteredMedications s)"
  shows "sortedMedications lc (setSortField (sortField s) s) = rev (sortedMedications lc s)"
proof -
  let ?f = "sortField s" and ?xs = "filteredMedications s"
  have so: "strictlyOrders (compareFn lc ?f (sortDir s)) ?xs"
  proof (cases "sortDir s = 1")
    case True
    with assms show ?thesis by simp
  next
    case False
    with sortDir_cases[of s] have "sortDir s = - 1" by simp
    with strictlyOrders_negate[OF assms] show ?thesis by (simp add: compareFn_negate)
  qed
  have "sortedMedications lc (setSortField ?f s)
      = array_sort (\<lambda>a b. - compareFn lc ?f (sortDir s) a b) ?xs"
    by (simp add: sortedMedications_def sortDir_toggle compareFn_negate)
  also have "\<dots> = rev (array_sort (compareFn lc ?f (sortDir s)) ?xs)"
    by (rule array_sort_negate[OF so])
  finally show ?thesis by (simp add: sortedMedications_def)
qed

text \<open>
  Records with the same numeric key keep, in both directions, the order they have in the
  filtered list.
\<close>

lemma ties_keep_order:
  "(sortField s = Median_price \<longrightarrow>
      filter (\<lambda>m. medianPrice m = p) (sortedMedications lc s)
      = filter (\<lambda>m. medianPrice m = p) (filteredMedications s))
   \<and> (sortField s = Ndc_count \<longrightarrow>
      filter (\<lambda>m. ndcLinkCount m = n) (sortedMedications lc s)
      = filter (\<lambda>m. ndcLinkCount m = n) (filteredMedications s))"
proof (intro conjI impI)
  assume f: "sortField s = Median_price"
  show "filter (\<lambda>m. medianPrice m = p) (sortedMedications lc s)
      = filter (\<lambda>m. medianPrice m = p) (filteredMedications s)"
  proof (cases "sortDirection s")
    case Asc
    with f show ?thesis by (simp add: sortedMedications_price_asc sort_key_stable)
  next
    case Desc
    have "filter (\<lambda>m. - medianPrice m = - p) (sort_key (\<lambda>m. - medianPrice m) (filteredMedications s))
        = filter (\<lambda>m. - medianPrice m = - p) (filteredMedications s)"
      by (rule sort_key_stable)
    with f Desc show ?thesis by (simp add: sortedMedications_price_desc)
  qed
next
  assume f: "sortField s = Ndc_count"
  show "filter (\<lambda>m. ndcLinkCount m = n) (sortedMedications lc s)
      = filter (\<lambda>m. ndcLinkCount m = n) (filteredMedications s)"
  proof (cases "sortDirection s")
    case Asc
    with f show ?thesis by (simp add: sortedMedications_ndc_asc sort_key_stable)
  next
    case Desc
    have "filter (\<lambda>m. - int (ndcLinkCount m) = - int n)
          (sort_key (\<lambda>m. - int (ndcLinkCount m)) (filteredMedications s))
        = filter (\<lambda>m. - int (ndcLinkCount m) = - int n) (filteredMedications s)"
      by (rule sort_key_stable)
    with f Desc show ?thesis by (simp add: sortedMedications_ndc_desc)
  qed
qed

text \<open>
  Claim C7, amended. \<open>setSortField\<close> with the active field flips the direction and
  leaves the field; with another field it sets that field and the direction ascending.
  \<open>sortedMedications\<close> is a permutation of the filtered records. Flipping the direction
  reverses it when the active comparator orders the filtered records strictly, that is,
  when no two of them compare equal. The keys \<open>median_price\<close> and \<open>ndc_count\<close> compare
  as numbers: the prices (the counts) of \<open>sortedMedications\<close> are non-decreasing when
  the direction is ascending and non-increasing when it is descending, and records with
  the same price (the same count) keep their filtered order in both directions.
\<close>

theorem sort_toggle_and_numeric_order:
  "(sortField s = f \<longrightarrow>
      setSortField f s = s\<lparr>sortDirection := (if sortDirection s = Asc then Desc else Asc)\<rparr>)
   \<and> (sortField s \<noteq> f \<longrightarrow> setSortField f s = s\<lparr>sortField := f, sortDirection := Asc\<rparr>)
   \<and> (strictlyOrders (compareFn lc (sortField s) 1) (filteredMedications s) \<longrightarrow>
        sortedMedications lc (setSortField (sortField s) s) = rev (sortedMedications lc s))
   \<and> mset (sortedMedications lc s) = mset (filteredMedications s)
   \<and> (sortField s = Median_price \<and> sortDirection s = Asc \<longrightarrow>
        sorted (map medianPrice (sortedMedications lc s)))
   \<and> (sortField s = Median_price \<and> sortDirection s = Desc \<longrightarrow>
        sorted (rev (map medianPrice (sortedMedications lc s))))
   \<and> (sortField s = Ndc_count \<and> sortDirection s = Asc \<longrightarrow>
        sorted (map ndcLinkCount (sortedMedications lc s)))
   \<and> (sortField s = Ndc_count \<and> sortDirection s = Desc \<longrightarrow>
        sorted (rev (map ndcLinkCount (sortedMedications lc s))))
   \<and> (sortField s = Median_price \<longrightarrow>
        filter (\<lambda>m. medianPrice m = p) (sortedMedications lc s)
        = filter (\<lambda>m. medianPrice m = p) (filteredMedications s))
   \<and> (sortField s = Ndc_count \<longrightarrow>
        filter (\<lambda>m. ndcLinkCount m = n) (sortedMedications lc s)
        = filter (\<lambda>m. ndcLinkCount m = n) (filteredMedications s))"
proof -
  have a: "sortField s = f \<longrightarrow>
      setSortField f s = s\<lparr>sortDirection := (if sortDirection s = Asc then Desc else Asc)\<rparr>"
    by (simp add: setSortField_def)
  have b: "sortField s \<noteq> f \<longrightarrow> setSortField f s = s\<lparr>sortField := f, sortDirection := Asc\<rparr>"
    by (simp add: setSortField_def)
  have c: "strictlyOrders (compareFn lc (sortField s) 1) (filteredMedications s) \<longrightarrow>
        sortedMedications lc (setSortField (sortField s) s) = rev (sortedMedications lc s)"
    using toggle_reverses by blast
  have d: "mset (sortedMedications lc s) = mset (filteredMedications s)"
    by (simp add: sortedMedications_def)
  from a b c d numeric_order[of s lc] ties_keep_order[of s p lc n]
  show ?thesis by (intro conjI) blast+
qed

lemmas sort_eval =
  sortedMedications_def array_sort_def compareFn_def sortDir_def setSortField_def
  filteredMedications_def trim_def medianPrice_def priceSortState_def distinctPriceState_def

text \<open>
  Claim C7 as stated: sorting by the same field twice reverses the order. Two of the four
  sample records have the price 10; sorted by price they come in their loaded order in
  both directions, so the second list is not the first reversed.
\<close>

theorem sort_toggle_reversal_counterexample:
  "\<not> (\<forall>s. sortedMedications codeCompare (setSortField (sortField s) s)
          = rev (sortedMedications codeCompare s))"
proof
  assume "\<forall>s. sortedMedications codeCompare (setSortField (sortField s) s)
      = rev (sortedMedications codeCompare s)"
  then have "sortedMedications codeCompare (setSortField (sortField priceSortState) priceSortState)
      = rev (sortedMedications codeCompare priceSortState)" by (rule spec)
  moreover have "sortedMedications codeCompare priceSortState
      = [mysterySyrup, amoxicillin, ibuprofen, acetaminophen]"
    by (simp add: sort_eval sample_eval)
  moreover have "sortedMedications codeCompare (setSortField (sortField priceSortState) priceSortState)
      = [ibuprofen, acetaminophen, amoxicillin, mysterySyrup]"
    by (simp add: sort_eval sample_eval)
  ultimately show False by (simp add: sample_eval)
qed

text \<open>
  Three records with the prices 10, 4/5 and 0: ascending gives 0, 4/5, 10 (so 0.8 precedes
  10.0), and flipping the direction gives the reverse.
\<close>

theorem sort_toggle_and_numeric_order_witness:
  "sortDirection (setSortField Median_price distinctPriceState) = Desc
   \<and> sortField (setSortField Name distinctPriceState) = Name
   \<and> sortDirection (setSortField Name (setSortField Median_price distinctPriceState)) = Asc
   \<and> strictlyOrders (compareFn codeCompare Median_price 1) (filteredMedications distinctPriceState)
   \<and> sortedMedications codeCompare distinctPriceState = [mysterySyrup, amoxicillin, ibuprofen]
   \<and> sortedMedications codeCompare (setSortField Median_price distinctPriceState)
       = [ibuprofen, amoxicillin, mysterySyrup]
   \<and> map medianPrice (sortedMedications codeCompare distinctPriceState) = [0, 4 / 5, 10]"
proof -
  have f: "sortField distinctPriceState = Median_price" and d: "sortDirection distinctPriceState = Asc"
    by (simp_all add: distinctPriceState_def priceSortState_def loadedState_def initialState_def)
  have so: "strictlyOrders (compareFn codeCompare (sortField distinctPriceState) 1)
      (filteredMedications distinctPriceState)"
    by (simp add: strictlyOrders_def sort_eval sample_eval)
  have asc: "sortedMedications codeCompare distinctPriceState = [mysterySyrup, amoxicillin, ibuprofen]"
    by (simp add: sort_eval sample_eval)
  note T = sort_toggle_and_numeric_order [of distinctPriceState Median_price codeCompare]
  from T [THEN conjunct1, rule_format, OF f]
  have t1: "setSortField Median_price distinctPriceState
      = distinctPriceState\<lparr>sortDirection := (if sortDirection distinctPriceState = Asc then Desc else Asc)\<rparr>" .
  from sort_toggle_and_numeric_order [of distinctPriceState Name codeCompare] f
  have t2: "setSortField Name distinctPriceState = distinctPriceState\<lparr>sortField := Name, sortDirection := Asc\<rparr>"
    by simp
  from sort_toggle_and_numeric_order [of "setSortField Median_price distinctPriceState" Name codeCompare] f
  have t3: "sortDirection (setSortField Name (setSortField Median_price distinctPriceState)) = Asc"
    by (simp add: t1)
  from T [THEN conjunct2, THEN conjunct2, THEN conjunct1, rule_format, OF so]
  have "sortedMedications codeCompare (setSortField Median_price distinctPriceState)
      = rev (sortedMedications codeCompare distinctPriceState)"
    unfolding f .
  then have desc: "sortedMedications codeCompare (setSortField Median_price distinctPriceState)
       = [ibuprofen, amoxicillin, mysterySyrup]"
    by (simp add: asc)
  have prices: "map medianPrice (sortedMedications codeCompare distinctPriceState) = [0, 4 / 5, 10]"
    by (simp add: asc medianPrice_def sample_eval)
  from t1 d have "sortDirection (setSortField Median_price distinctPriceState) = Desc" by simp
  moreover from t2 have "sortField (setSortField Name distinctPriceState) = Name" by simp
  ultimately show ?thesis using t3 so asc desc prices f by simp
qed

end
